theory Spec2Isabelle
  imports Main "HOL-Library.Char_ord" "HOL-Library.List_Lexorder"
begin

section \<open>Data model of radix.go\<close>

text \<open>
  Keys are Go strings, that is byte sequences: \<^typ>\<open>string\<close> with the byte order of
  \<open>Char_ord\<close> and the lexicographic order of \<open>List_Lexorder\<close> (a proper prefix is smaller),
  which is Go's \<open><\<close> on strings. The value type \<open>T\<close> of the generic tree is \<^typ>\<open>'v\<close>;
  Go's zero value of \<open>T\<close> is \<open>0\<close> of class \<open>zero\<close>.

  \<open>leafNode\<close>, \<open>edge\<close> (a pair of label and node) and \<open>node\<close> are the structs of the
  source. The tree owns its nodes exclusively and no node is shared, so a pointer to a
  node is modelled by the node itself, and an in-place update of a node below the root
  by rebuilding the path to it (\<open>setEdgeNode\<close>). The traversal that runs while the
  visitor mutates the tree depends on aliasing and has a store model of its own in the
  last section.
\<close>

datatype 'v leafNode = LeafNode (key: string) (val: 'v)

datatype 'v node =
  Node (leaf: "'v leafNode option") (prefix: string) (edges: "(char \<times> 'v node) list")

record 'v tree =
  root :: "'v node"
  tsize :: int

definition isLeaf :: "'v node \<Rightarrow> bool" where
  "isLeaf n = (leaf n \<noteq> None)"

subsection \<open>Sorted edge list\<close>

text \<open>
  \<open>sort.Search\<close> of Go's standard library: the binary search
  \<^verbatim>\<open>i, j := 0, n; for i < j { h := int(uint(i+j) >> 1); if !f(h) { i = h + 1 } else { j = h } }; return i\<close>.
\<close>

function sort_Search_loop :: "nat \<Rightarrow> nat \<Rightarrow> (nat \<Rightarrow> bool) \<Rightarrow> nat" where
  "sort_Search_loop i j f =
     (if i < j then
        (let h = (i + j) div 2 in
         if \<not> f h then sort_Search_loop (h + 1) j f else sort_Search_loop i h f)
      else i)"
  by pat_completeness auto
termination
  by (relation "measure (\<lambda>(i, j, f). j - i)") auto

declare sort_Search_loop.simps [simp del]

definition sort_Search :: "nat \<Rightarrow> (nat \<Rightarrow> bool) \<Rightarrow> nat" where
  "sort_Search n f = sort_Search_loop 0 n f"

text \<open>The index computed at the head of \<open>addEdge\<close>, \<open>updateEdge\<close>, \<open>getEdge\<close>, \<open>delEdge\<close>.\<close>

definition edgeIndex :: "'v node \<Rightarrow> char \<Rightarrow> nat" where
  "edgeIndex n l = sort_Search (length (edges n)) (\<lambda>i. fst (edges n ! i) \<ge> l)"

definition addEdge :: "'v node \<Rightarrow> char \<times> 'v node \<Rightarrow> 'v node" where
  "addEdge n e =
     (let idx = edgeIndex n (fst e)
      in Node (leaf n) (prefix n) (take idx (edges n) @ e # drop idx (edges n)))"

text \<open>\<open>updateEdge\<close> panics ("replacing missing edge") when the label is absent: \<open>None\<close>.\<close>

definition updateEdge :: "'v node \<Rightarrow> char \<Rightarrow> 'v node \<Rightarrow> 'v node option" where
  "updateEdge n l c =
     (let num = length (edges n); idx = edgeIndex n l
      in if idx < num \<and> fst (edges n ! idx) = l
         then Some (Node (leaf n) (prefix n) ((edges n)[idx := (l, c)]))
         else None)"

definition getEdge :: "'v node \<Rightarrow> char \<Rightarrow> 'v node option" where
  "getEdge n l =
     (let num = length (edges n); idx = edgeIndex n l
      in if idx < num \<and> fst (edges n ! idx) = l
         then Some (snd (edges n ! idx))
         else None)"

definition delEdge :: "'v node \<Rightarrow> char \<Rightarrow> 'v node" where
  "delEdge n l =
     (let num = length (edges n); idx = edgeIndex n l
      in if idx < num \<and> fst (edges n ! idx) = l
         then Node (leaf n) (prefix n) (take idx (edges n) @ drop (idx + 1) (edges n))
         else n)"

text \<open>
  The source mutates a child through the pointer its parent's edge holds. With nodes as
  values, the mutated child \<open>c\<close> is written back into the edge that \<open>getEdge n l\<close> read.
\<close>

definition setEdgeNode :: "'v node \<Rightarrow> char \<Rightarrow> 'v node \<Rightarrow> 'v node" where
  "setEdgeNode n l c =
     Node (leaf n) (prefix n) ((edges n)[edgeIndex n l := (l, c)])"

subsection \<open>Strings\<close>

text \<open>\<open>longestPrefix\<close>: the loop over \<open>i\<close> up to the shorter length.\<close>

function longestPrefix_loop :: "string \<Rightarrow> string \<Rightarrow> nat \<Rightarrow> nat \<Rightarrow> nat" where
  "longestPrefix_loop a b longest i =
     (if i < longest then
        (if a ! i \<noteq> b ! i then i else longestPrefix_loop a b longest (i + 1))
      else i)"
  by pat_completeness auto
termination
  by (relation "measure (\<lambda>(a, b, longest, i). longest - i)") auto

declare longestPrefix_loop.simps [simp del]

definition longestPrefix :: "string \<Rightarrow> string \<Rightarrow> nat" where
  "longestPrefix a b =
     (let longest = length a;
          longest = (if length b < longest then length b else longest)
      in longestPrefix_loop a b longest 0)"

text \<open>\<open>strings.HasPrefix(s, p)\<close>: \<open>len(s) >= len(p) && s[:len(p)] == p\<close>.\<close>

definition HasPrefix :: "string \<Rightarrow> string \<Rightarrow> bool" where
  "HasPrefix s p = (length s \<ge> length p \<and> take (length p) s = p)"

subsection \<open>New, Len\<close>

definition New :: "'v tree" where
  "New = \<lparr>root = Node None [] [], tsize = 0\<rparr>"

definition Len :: "'v tree \<Rightarrow> int" where
  "Len t = tsize t"

lemma size_edge_node [termination_simp]:
  "e \<in> set es \<Longrightarrow> size (snd e) < Suc (size_list (size_prod (\<lambda>_. 0) size) es)"
  by (induction es) auto

lemma getEdge_size:
  "getEdge n l = Some c \<Longrightarrow> size c < size n"
proof (cases n)
  case (Node lf p es)
  assume "getEdge n l = Some c"
  then obtain i where "i < length es" "c = snd (es ! i)"
    by (auto simp: Node getEdge_def Let_def split: if_splits)
  then show ?thesis
    using size_edge_node [of "es ! i" es] by (simp add: Node)
qed

lemma nth_edge_size:
  "i < length (edges n) \<Longrightarrow> size (snd (edges n ! i)) < size n"
  using size_edge_node [of "edges n ! i" "edges n"] by (cases n) simp

text \<open>
  How a loop of the source ends: by a panic (an index out of range, or the explicit panic
  of \<open>updateEdge\<close>), by leaving without having written anything (\<open>break\<close>, or the early
  \<open>return 0\<close> of \<open>deletePrefix\<close>), or with a result after its writes.
\<close>

datatype 'a outcome = Panic | Break | Done 'a

subsection \<open>Get\<close>

text \<open>
  The loop of \<open>Get\<close> from \<open>current\<close> with the rest \<open>search\<close> of the key; \<open>None\<close> is a
  \<open>break\<close> (not found).
\<close>

function Get_loop :: "'v node \<Rightarrow> string \<Rightarrow> 'v option" where
  "Get_loop current search =
     (if search = [] then
        (case leaf current of Some l \<Rightarrow> Some (val l) | None \<Rightarrow> None)
      else
        (case getEdge current (hd search) of
           None \<Rightarrow> None
         | Some c \<Rightarrow>
             if HasPrefix search (prefix c)
             then Get_loop c (drop (length (prefix c)) search)
             else None))"
  by pat_completeness auto
termination
  by (relation "measure (\<lambda>(current, search). size current)") (auto simp: getEdge_size)

declare Get_loop.simps [simp del]

definition Get :: "('v::zero) tree \<Rightarrow> string \<Rightarrow> 'v \<times> bool" where
  "Get t s = (case Get_loop (root t) s of Some v \<Rightarrow> (v, True) | None \<Rightarrow> (0, False))"


subsection \<open>Insert\<close>

text \<open>
  The loop of \<open>Insert\<close>, entered at \<open>current\<close> with the rest \<open>search\<close> of \<open>path\<close> and the
  tree's \<open>size\<close> in \<open>sz\<close>. One unfolding is one iteration: what the source calls \<open>parent\<close>
  after \<open>parent = current\<close> is this call's \<open>current\<close>, and \<open>c\<close> is the node the edge leads
  to. The result is the node \<open>current\<close> after the writes, the new size, and the two
  results \<open>(existing, updated)\<close>; \<open>None\<close> is the panic of \<open>updateEdge\<close>.
\<close>

function Insert_loop ::
  "('v::zero) node \<Rightarrow> string \<Rightarrow> string \<Rightarrow> 'v \<Rightarrow> int \<Rightarrow> ('v node \<times> int \<times> 'v \<times> bool) option"
where
  "Insert_loop current search path v sz =
     (if search = [] then
        (case leaf current of
           Some l \<Rightarrow>
             Some (Node (Some (LeafNode (key l) v)) (prefix current) (edges current),
                   sz, val l, True)
         | None \<Rightarrow>
             Some (Node (Some (LeafNode path v)) (prefix current) (edges current),
                   sz + 1, 0, False))
      else
        (case getEdge current (hd search) of
           None \<Rightarrow>
             Some (addEdge current (hd search, Node (Some (LeafNode path v)) search []),
                   sz + 1, 0, False)
         | Some c \<Rightarrow>
             (let commonPrefix = longestPrefix search (prefix c) in
              if commonPrefix = length (prefix c) then
                (case Insert_loop c (drop commonPrefix search) path v sz of
                   None \<Rightarrow> None
                 | Some (c', r) \<Rightarrow> Some (setEdgeNode current (hd search) c', r))
              else
                (let child = Node None (take commonPrefix search) [];
                     child = addEdge child
                               (prefix c ! commonPrefix,
                                Node (leaf c) (drop commonPrefix (prefix c)) (edges c));
                     lf = LeafNode path v;
                     search' = drop commonPrefix search;
                     child = (if search' = []
                              then Node (Some lf) (prefix child) (edges child)
                              else addEdge child (hd search', Node (Some lf) search' []))
                 in case updateEdge current (hd search) child of
                      None \<Rightarrow> None
                    | Some parent \<Rightarrow> Some (parent, sz + 1, 0, False)))))"
  by pat_completeness auto
termination
  by (relation "measure (\<lambda>(current, search, path, v, sz). size current)")
     (auto simp: getEdge_size)

declare Insert_loop.simps [simp del]

definition Insert ::
  "('v::zero) tree \<Rightarrow> string \<Rightarrow> 'v \<Rightarrow> ('v tree \<times> 'v \<times> bool) option"
where
  "Insert t path v =
     (case Insert_loop (root t) path path v (tsize t) of
        None \<Rightarrow> None
      | Some (r, sz, existing, updated) \<Rightarrow>
          Some (\<lparr>root = r, tsize = sz\<rparr>, existing, updated))"

subsection \<open>Delete\<close>

text \<open>\<open>mergeChild\<close> reads \<open>n.edges[0]\<close>, which panics on an empty edge list.\<close>

fun mergeChild :: "'v node \<Rightarrow> 'v node option" where
  "mergeChild (Node lf p []) = None"
| "mergeChild (Node lf p (e # es)) =
     Some (Node (leaf (snd e)) (p @ prefix (snd e)) (edges (snd e)))"

text \<open>
  The third \<open>if\<close> after the label \<open>DELETE\<close>, also the \<open>if\<close> of \<open>deletePrefix\<close>:
  \<open>parent != nil && parent != t.root && len(parent.edges) == 1 && !parent.isLeaf()\<close>,
  for a parent that is not \<open>nil\<close>.
\<close>

definition mergeParent :: "bool \<Rightarrow> 'v node \<Rightarrow> 'v node option" where
  "mergeParent parentIsRoot parent =
     (if \<not> parentIsRoot \<and> length (edges parent) = 1 \<and> \<not> isLeaf parent
      then mergeChild parent else Some parent)"

text \<open>
  The block after the label \<open>DELETE\<close> for a \<open>current\<close> reached over the edge \<open>label\<close> of
  \<open>parent\<close> (so \<open>parent != nil\<close> and \<open>current != t.root\<close>); the result is the parent after
  the writes.
\<close>

definition Delete_block :: "bool \<Rightarrow> 'v node \<Rightarrow> char \<Rightarrow> 'v node \<Rightarrow> 'v node option" where
  "Delete_block parentIsRoot parent label current =
     (let current = Node None (prefix current) (edges current)
      in if length (edges current) = 0 then
           mergeParent parentIsRoot (delEdge parent label)
         else
           (case (if length (edges current) = 1 then mergeChild current else Some current) of
              None \<Rightarrow> None
            | Some current \<Rightarrow> mergeParent parentIsRoot (setEdgeNode parent label current)))"

text \<open>
  The loop of \<open>Delete\<close> from the second statement of its body on: \<open>n\<close> is \<open>current\<close> at the
  head of an iteration with a non-empty \<open>search\<close>, and becomes \<open>parent\<close>; \<open>isRoot\<close> says
  whether \<open>n\<close> is \<open>t.root\<close>. The key is exhausted at the head of the next iteration, which
  is the test \<open>search' = []\<close> here.
\<close>

function Delete_loop :: "bool \<Rightarrow> 'v node \<Rightarrow> string \<Rightarrow> ('v node \<times> 'v) outcome" where
  "Delete_loop isRoot n search =
     (case getEdge n (hd search) of
        None \<Rightarrow> Break
      | Some current \<Rightarrow>
          if HasPrefix search (prefix current) then
            (let search' = drop (length (prefix current)) search in
             if search' = [] then
               (case leaf current of
                  None \<Rightarrow> Break
                | Some l \<Rightarrow>
                    (case Delete_block isRoot n (hd search) current of
                       None \<Rightarrow> Panic
                     | Some n' \<Rightarrow> Done (n', val l)))
             else
               (case Delete_loop False current search' of
                  Panic \<Rightarrow> Panic
                | Break \<Rightarrow> Break
                | Done (current', x) \<Rightarrow> Done (setEdgeNode n (hd search) current', x)))
          else Break)"
  by pat_completeness auto
termination
  by (relation "measure (\<lambda>(isRoot, n, search). size n)") (auto simp: getEdge_size)

declare Delete_loop.simps [simp del]

text \<open>
  \<open>Delete\<close>: with the empty key the loop ends in its first iteration, at the root itself
  (\<open>parent == nil\<close>, so none of the three \<open>if\<close>s after \<open>DELETE\<close> fires).
\<close>

definition Delete :: "('v::zero) tree \<Rightarrow> string \<Rightarrow> ('v tree \<times> 'v \<times> bool) option" where
  "Delete t s =
     (if s = [] then
        (case leaf (root t) of
           None \<Rightarrow> Some (t, 0, False)
         | Some l \<Rightarrow>
             Some (\<lparr>root = Node None (prefix (root t)) (edges (root t)), tsize = tsize t - 1\<rparr>,
                   val l, True))
      else
        (case Delete_loop True (root t) s of
           Panic \<Rightarrow> None
         | Break \<Rightarrow> Some (t, 0, False)
         | Done (r, x) \<Rightarrow> Some (\<lparr>root = r, tsize = tsize t - 1\<rparr>, x, True)))"

subsection \<open>Walk, ToMap\<close>

text \<open>
  \<open>recursiveWalk\<close> for a visitor that does not write to the tree: the visitor is a function
  of the key, the value and the state \<open>st\<close> of what its closure captured, giving the stop
  flag and the new state (the counter in \<open>deletePrefix\<close>, the map in \<open>ToMap\<close>).
  \<open>recursiveWalk_loop\<close> is the \<open>for i < numEdges\<close> loop with its two re-readings of
  \<open>len(current.edges)\<close>; \<open>None\<close> is the panic of \<open>current.edges[i]\<close> out of range.
\<close>

type_synonym ('v, 's) WalkFn = "string \<Rightarrow> 'v \<Rightarrow> 's \<Rightarrow> bool \<times> 's"

function recursiveWalk :: "'v node \<Rightarrow> ('v, 's) WalkFn \<Rightarrow> 's \<Rightarrow> (bool \<times> 's) option"
  and recursiveWalk_loop ::
    "'v node \<Rightarrow> ('v, 's) WalkFn \<Rightarrow> nat \<Rightarrow> nat \<Rightarrow> 's \<Rightarrow> (bool \<times> 's) option"
where
  "recursiveWalk current fn st =
     (case (case leaf current of
              None \<Rightarrow> (False, st)
            | Some l \<Rightarrow> fn (key l) (val l) st) of
        (stop, st1) \<Rightarrow>
          if stop then Some (True, st1)
          else recursiveWalk_loop current fn 0 (length (edges current)) st1)"
| "recursiveWalk_loop current fn i numEdges st =
     (if i < numEdges then
        (if i \<ge> length (edges current) then None
         else
           (case recursiveWalk (snd (edges current ! i)) fn st of
              None \<Rightarrow> None
            | Some (stop, st1) \<Rightarrow>
                if stop then Some (True, st1)
                else if length (edges current) = 0 then recursiveWalk current fn st1
                else recursiveWalk_loop current fn
                       (if length (edges current) \<ge> numEdges then i + 1 else i)
                       (length (edges current)) st1))
      else Some (False, st))"
  by pat_completeness auto
termination
  by (relation "measures
        [\<lambda>x. case x of Inl (c, fn, st) \<Rightarrow> size c | Inr (c, fn, i, k, st) \<Rightarrow> size c,
         \<lambda>x. case x of Inl (c, fn, st) \<Rightarrow> 1 | Inr (c, fn, i, k, st) \<Rightarrow> 0,
         \<lambda>x. case x of Inl (c, fn, st) \<Rightarrow> 0
                | Inr (c, fn, i, k, st) \<Rightarrow> (if k = length (edges c) then 0 else 1),
         \<lambda>x. case x of Inl (c, fn, st) \<Rightarrow> 0
                | Inr (c, fn, i, k, st) \<Rightarrow> length (edges c) - i]")
     (auto simp: nth_edge_size)

declare recursiveWalk.simps [simp del] recursiveWalk_loop.simps [simp del]



subsection \<open>DeletePrefix\<close>

text \<open>The count \<open>subTreeSize\<close> that \<open>deletePrefix\<close> takes by a walk of the subtree.\<close>

definition subTreeSize :: "'v node \<Rightarrow> int option" where
  "subTreeSize current =
     (case recursiveWalk current (\<lambda>k v n. (False, n + 1)) 0 of
        None \<Rightarrow> None
      | Some (stop, n) \<Rightarrow> Some n)"

text \<open>
  \<open>deletePrefix(parent, current, prefix)\<close> for a non-empty \<open>prefix\<close> (here \<open>pfx\<close>), with
  \<open>n\<close> for \<open>current\<close> and \<open>isRoot\<close> saying whether \<open>n\<close> is \<open>t.root\<close>. The recursive call
  \<open>deletePrefix(current, child, prefix)\<close> with an exhausted prefix is the branch
  \<open>pfx' = []\<close>: it empties \<open>child\<close> and then looks at its parent \<open>n\<close>. The result is \<open>n\<close>
  after the writes and the count; \<open>Break\<close> is \<open>return 0\<close>.
\<close>

function deletePrefix_loop :: "bool \<Rightarrow> 'v node \<Rightarrow> string \<Rightarrow> ('v node \<times> int) outcome" where
  "deletePrefix_loop isRoot n pfx =
     (case getEdge n (hd pfx) of
        None \<Rightarrow> Break
      | Some child \<Rightarrow>
          if \<not> HasPrefix (prefix child) pfx \<and> \<not> HasPrefix pfx (prefix child) then Break
          else
            (let pfx' = (if length (prefix child) > length pfx
                         then drop (length pfx) pfx
                         else drop (length (prefix child)) pfx)
             in if pfx' = [] then
                  (case subTreeSize child of
                     None \<Rightarrow> Panic
                   | Some cnt \<Rightarrow>
                       (case mergeParent isRoot
                               (setEdgeNode n (hd pfx) (Node None (prefix child) [])) of
                          None \<Rightarrow> Panic
                        | Some n' \<Rightarrow> Done (n', cnt)))
                else
                  (case deletePrefix_loop False child pfx' of
                     Panic \<Rightarrow> Panic
                   | Break \<Rightarrow> Break
                   | Done (child', cnt) \<Rightarrow> Done (setEdgeNode n (hd pfx) child', cnt))))"
  by pat_completeness auto
termination
  by (relation "measure (\<lambda>(isRoot, n, pfx). size n)") (auto simp: getEdge_size)

declare deletePrefix_loop.simps [simp del]

text \<open>
  \<open>DeletePrefix(s)\<close> is \<open>deletePrefix(nil, t.root, s)\<close>; with the empty prefix the root
  itself is emptied and there is no parent to look at.
\<close>

definition DeletePrefix :: "'v tree \<Rightarrow> string \<Rightarrow> ('v tree \<times> int) option" where
  "DeletePrefix t s =
     (if s = [] then
        (case subTreeSize (root t) of
           None \<Rightarrow> None
         | Some cnt \<Rightarrow>
             Some (\<lparr>root = Node None (prefix (root t)) [], tsize = tsize t - cnt\<rparr>, cnt))
      else
        (case deletePrefix_loop True (root t) s of
           Panic \<Rightarrow> None
         | Break \<Rightarrow> Some (t, 0)
         | Done (r, cnt) \<Rightarrow> Some (\<lparr>root = r, tsize = tsize t - cnt\<rparr>, cnt)))"

subsection \<open>LongestPrefix, Minimum, Maximum\<close>

function LongestPrefix_loop ::
  "'v leafNode option \<Rightarrow> 'v node \<Rightarrow> string \<Rightarrow> 'v leafNode option"
where
  "LongestPrefix_loop lastLeaf current search =
     (let lastLeaf = (if isLeaf current then leaf current else lastLeaf) in
      if search = [] then lastLeaf
      else
        (case getEdge current (hd search) of
           None \<Rightarrow> lastLeaf
         | Some c \<Rightarrow>
             if HasPrefix search (prefix c)
             then LongestPrefix_loop lastLeaf c (drop (length (prefix c)) search)
             else lastLeaf))"
  by pat_completeness auto
termination
  by (relation "measure (\<lambda>(lastLeaf, current, search). size current)") (auto simp: getEdge_size)

declare LongestPrefix_loop.simps [simp del]

definition LongestPrefix :: "('v::zero) tree \<Rightarrow> string \<Rightarrow> string \<times> 'v \<times> bool" where
  "LongestPrefix t s =
     (case LongestPrefix_loop None (root t) s of
        Some l \<Rightarrow> (key l, val l, True)
      | None \<Rightarrow> ([], 0, False))"

function Minimum_loop :: "'v node \<Rightarrow> 'v leafNode option" where
  "Minimum_loop current =
     (case leaf current of
        Some l \<Rightarrow> Some l
      | None \<Rightarrow>
          if length (edges current) > 0
          then Minimum_loop (snd (edges current ! 0))
          else None)"
  by pat_completeness auto
termination
  by (relation "measure size") (auto simp: nth_edge_size)

declare Minimum_loop.simps [simp del]

definition Minimum :: "('v::zero) tree \<Rightarrow> string \<times> 'v \<times> bool" where
  "Minimum t =
     (case Minimum_loop (root t) of
        Some l \<Rightarrow> (key l, val l, True)
      | None \<Rightarrow> ([], 0, False))"

function Maximum_loop :: "'v node \<Rightarrow> 'v leafNode option" where
  "Maximum_loop current =
     (let num = length (edges current) in
      if num > 0 then Maximum_loop (snd (edges current ! (num - 1)))
      else (case leaf current of Some l \<Rightarrow> Some l | None \<Rightarrow> None))"
  by pat_completeness auto
termination
  by (relation "measure size") (auto simp: nth_edge_size)

declare Maximum_loop.simps [simp del]

definition Maximum :: "('v::zero) tree \<Rightarrow> string \<times> 'v \<times> bool" where
  "Maximum t =
     (case Maximum_loop (root t) of
        Some l \<Rightarrow> (key l, val l, True)
      | None \<Rightarrow> ([], 0, False))"


section \<open>Properties of the model\<close>

lemma sort_Search_loop_eq:
  "i \<le> k \<Longrightarrow> k \<le> j \<Longrightarrow> (\<forall>m. i \<le> m \<and> m < k \<longrightarrow> \<not> f m) \<Longrightarrow>
   (\<forall>m. k \<le> m \<and> m < j \<longrightarrow> f m) \<Longrightarrow> sort_Search_loop i j f = k"
proof (induction "j - i" arbitrary: i j rule: less_induct)
  case less
  show ?case
  proof (cases "i < j")
    case False
    with less.prems show ?thesis by (simp add: sort_Search_loop.simps)
  next
    case True
    define h where "h = (i + j) div 2"
    have h: "i \<le> h" "h < j" using True by (auto simp: h_def)
    show ?thesis
    proof (cases "f h")
      case True
      with less.prems h have kh: "k \<le> h" by (meson not_le_imp_less)
      have "sort_Search_loop i h f = k"
        using less.prems h kh by (intro less.hyps) auto
      with True \<open>i < j\<close> show ?thesis
        by (subst sort_Search_loop.simps) (simp add: h_def)
    next
      case False
      with less.prems h have kh: "h + 1 \<le> k"
        by (metis Suc_eq_plus1 Suc_leI not_le_imp_less)
      have "sort_Search_loop (h + 1) j f = k"
        using less.prems h kh by (intro less.hyps) auto
      with False \<open>i < j\<close> show ?thesis
        by (subst sort_Search_loop.simps) (simp add: h_def)
    qed
  qed
qed

lemma edgeIndex_partition:
  assumes "edges n = xs @ ys" "\<forall>e \<in> set xs. fst e < l" "\<forall>e \<in> set ys. l \<le> fst e"
  shows "edgeIndex n l = length xs"
  unfolding edgeIndex_def sort_Search_def
proof (rule sort_Search_loop_eq)
  show "\<forall>m. 0 \<le> m \<and> m < length xs \<longrightarrow> \<not> l \<le> fst (edges n ! m)"
    using assms(1,2) by (auto simp: nth_append dest!: nth_mem [of _ xs])
  show "\<forall>m. length xs \<le> m \<and> m < length (edges n) \<longrightarrow> l \<le> fst (edges n ! m)"
    using assms(1,3) by (auto simp: nth_append)
qed (simp_all add: assms(1))

definition sortedEdges :: "(char \<times> 'v node) list \<Rightarrow> bool" where
  "sortedEdges es = sorted_wrt (<) (map fst es)"

lemma sortedEdges_split:
  "sortedEdges es \<Longrightarrow>
   \<exists>xs ys. es = xs @ ys \<and> (\<forall>e \<in> set xs. fst e < l) \<and> (\<forall>e \<in> set ys. l \<le> fst e)"
proof (induction es)
  case Nil
  then show ?case by simp
next
  case (Cons e es)
  show ?case
  proof (cases "fst e < l")
    case True
    from Cons obtain xs ys where "es = xs @ ys" "\<forall>e \<in> set xs. fst e < l" "\<forall>e \<in> set ys. l \<le> fst e"
      by (auto simp: sortedEdges_def)
    with True have "e # es = (e # xs) @ ys \<and> (\<forall>e \<in> set (e # xs). fst e < l) \<and> (\<forall>e \<in> set ys. l \<le> fst e)"
      by simp
    then show ?thesis by blast
  next
    case False
    with Cons.prems have "e # es = [] @ (e # es) \<and> (\<forall>x \<in> set (e # es). l \<le> fst x)"
      by (fastforce simp: sortedEdges_def)
    then show ?thesis by (metis empty_iff list.set(1))
  qed
qed

text \<open>The two shapes of a sorted edge list around a label.\<close>

lemma getEdge_cases:
  assumes "sortedEdges (edges n)"
  obtains (found) xs c ys where "edges n = xs @ (l, c) # ys" "edgeIndex n l = length xs"
      "getEdge n l = Some c" "\<forall>e \<in> set xs. fst e < l" "\<forall>e \<in> set ys. l < fst e"
  | (missing) xs ys where "edges n = xs @ ys" "edgeIndex n l = length xs"
      "getEdge n l = None" "\<forall>e \<in> set xs. fst e < l" "\<forall>e \<in> set ys. l < fst e"
proof -
  from sortedEdges_split [OF assms, of l] obtain xs ys where
    s: "edges n = xs @ ys" "\<forall>e \<in> set xs. fst e < l" "\<forall>e \<in> set ys. l \<le> fst e"
    by blast
  then have idx: "edgeIndex n l = length xs" by (rule edgeIndex_partition)
  show thesis
  proof (cases ys)
    case Nil
    with s idx have "getEdge n l = None" by (simp add: getEdge_def)
    with s idx Nil show thesis by (intro missing [of xs ys]) auto
  next
    case (Cons e ys')
    show thesis
    proof (cases "fst e = l")
      case True
      have "\<forall>x \<in> set ys'. l < fst x"
        using assms s(1) Cons True by (auto simp: sortedEdges_def sorted_wrt_append)
      moreover have "getEdge n l = Some (snd e)"
        using s(1) idx Cons True by (simp add: getEdge_def)
      ultimately show thesis using s idx Cons True
        by (intro found [of xs "snd e" ys']) auto
    next
      case False
      have "\<forall>x \<in> set ys'. l < fst x"
        using assms s(1,3) Cons False by (fastforce simp: sortedEdges_def sorted_wrt_append)
      moreover have "l < fst e" using s(3) Cons False by auto
      moreover have "getEdge n l = None"
        using s(1) idx Cons False by (simp add: getEdge_def)
      ultimately show thesis using s idx Cons
        by (intro missing [of xs ys]) auto
    qed
  qed
qed

lemma getEdge_map_of:
  assumes "sortedEdges (edges n)"
  shows "getEdge n l = map_of (edges n) l"
  using assms
proof (cases rule: getEdge_cases [where n = n and l = l])
  case (found xs c ys)
  then have "map_of xs l = None" by (force simp: map_of_eq_None_iff)
  with found show ?thesis by (simp add: map_add_def)
next
  case (missing xs ys)
  then have "map_of xs l = None" "map_of ys l = None" by (force simp: map_of_eq_None_iff)+
  with missing show ?thesis by (simp add: map_add_def)
qed

lemma sortedEdges_append:
  "sortedEdges (xs @ ys) \<longleftrightarrow>
     sortedEdges xs \<and> sortedEdges ys \<and> (\<forall>x \<in> set xs. \<forall>y \<in> set ys. fst x < fst y)"
  by (auto simp: sortedEdges_def sorted_wrt_append)

lemma sortedEdges_Cons:
  "sortedEdges (e # es) \<longleftrightarrow> sortedEdges es \<and> (\<forall>y \<in> set es. fst e < fst y)"
  by (auto simp: sortedEdges_def)

lemma sortedEdges_Nil [simp]: "sortedEdges []"
  by (simp add: sortedEdges_def)

text \<open>Writing a node back into the edge it was read from.\<close>

lemma setEdgeNode_edges:
  assumes "edges n = xs @ (l, c) # ys" "edgeIndex n l = length xs"
  shows "setEdgeNode n l c' = Node (leaf n) (prefix n) (xs @ (l, c') # ys)"
  using assms by (simp add: setEdgeNode_def)

lemma updateEdge_setEdgeNode:
  "getEdge n l = Some c \<Longrightarrow> updateEdge n l c' = Some (setEdgeNode n l c')"
  by (auto simp: getEdge_def updateEdge_def setEdgeNode_def Let_def split: if_splits)

lemma setEdgeNode_same:
  "getEdge n l = Some c \<Longrightarrow> setEdgeNode n l c = n"
  by (cases n) (auto simp: getEdge_def setEdgeNode_def Let_def list_update_same_conv prod_eq_iff
      split: if_splits)

lemma delEdge_edges:
  assumes "edges n = xs @ (l, c) # ys" "edgeIndex n l = length xs"
  shows "delEdge n l = Node (leaf n) (prefix n) (xs @ ys)"
  using assms by (simp add: delEdge_def)

lemma addEdge_edges:
  assumes "edges n = xs @ ys" "edgeIndex n l = length xs"
  shows "addEdge n (l, c) = Node (leaf n) (prefix n) (xs @ (l, c) # ys)"
  using assms by (simp add: addEdge_def)

lemma delEdge_missing:
  "getEdge n l = None \<Longrightarrow> delEdge n l = n"
  by (auto simp: getEdge_def delEdge_def Let_def split: if_splits)

lemma HasPrefix_iff: "HasPrefix s p \<longleftrightarrow> (\<exists>r. s = p @ r)"
  by (auto simp: HasPrefix_def) (metis append_take_drop_id)

lemma HasPrefix_append [simp]: "HasPrefix (p @ r) p"
  by (simp add: HasPrefix_def)

lemma HasPrefix_Nil [simp]: "HasPrefix s []"
  by (simp add: HasPrefix_def)

lemma HasPrefix_same_append [simp]: "HasPrefix (p @ r) (p @ q) \<longleftrightarrow> HasPrefix r q"
  by (auto simp: HasPrefix_iff)

lemma longestPrefix_loop_spec:
  "i \<le> longest \<Longrightarrow> longest \<le> length a \<Longrightarrow> longest \<le> length b \<Longrightarrow> take i a = take i b \<Longrightarrow>
   i \<le> longestPrefix_loop a b longest i \<and> longestPrefix_loop a b longest i \<le> longest \<and>
   take (longestPrefix_loop a b longest i) a = take (longestPrefix_loop a b longest i) b \<and>
   (longestPrefix_loop a b longest i < longest \<longrightarrow>
      a ! longestPrefix_loop a b longest i \<noteq> b ! longestPrefix_loop a b longest i)"
proof (induction a b longest i rule: longestPrefix_loop.induct)
  case (1 a b longest i)
  show ?case
  proof (cases "i < longest \<and> a ! i = b ! i")
    case True
    then have "take (i + 1) a = take (i + 1) b"
      using "1.prems" by (simp add: take_Suc_conv_app_nth)
    with True "1.prems" have IH: "i + 1 \<le> longestPrefix_loop a b longest (i + 1) \<and>
        longestPrefix_loop a b longest (i + 1) \<le> longest \<and>
        take (longestPrefix_loop a b longest (i + 1)) a = take (longestPrefix_loop a b longest (i + 1)) b \<and>
        (longestPrefix_loop a b longest (i + 1) < longest \<longrightarrow>
          a ! longestPrefix_loop a b longest (i + 1) \<noteq> b ! longestPrefix_loop a b longest (i + 1))"
      by (intro "1.IH") auto
    have "longestPrefix_loop a b longest i = longestPrefix_loop a b longest (i + 1)"
      using True by (subst longestPrefix_loop.simps) simp
    with IH show ?thesis by auto
  next
    case False
    then have "longestPrefix_loop a b longest i = i"
      by (subst longestPrefix_loop.simps) auto
    with False "1.prems" show ?thesis by auto
  qed
qed

text \<open>What \<open>longestPrefix\<close> computes: the split of both strings at their first difference.\<close>

lemma longestPrefix_split:
  obtains q a' b' where "a = q @ a'" "b = q @ b'" "longestPrefix a b = length q"
    "a' = [] \<or> b' = [] \<or> hd a' \<noteq> hd b'"
proof -
  define m where "m = (if length b < length a then length b else length a)"
  define r where "r = longestPrefix a b"
  have r: "r = longestPrefix_loop a b m 0"
    by (simp add: r_def longestPrefix_def m_def Let_def)
  have "0 \<le> r \<and> r \<le> m \<and> take r a = take r b \<and> (r < m \<longrightarrow> a ! r \<noteq> b ! r)"
    unfolding r by (rule longestPrefix_loop_spec) (auto simp: m_def)
  then have le: "r \<le> length a" "r \<le> length b" and tk: "take r a = take r b"
    and ne: "r < length a \<Longrightarrow> r < length b \<Longrightarrow> a ! r \<noteq> b ! r"
    by (auto simp: m_def split: if_splits)
  show thesis
  proof (rule that [of "take r a" "drop r a" "drop r b"])
    show "a = take r a @ drop r a" by simp
    show "b = take r a @ drop r b" by (simp add: tk)
    show "longestPrefix a b = length (take r a)" using le by (simp add: r_def)
    show "drop r a = [] \<or> drop r b = [] \<or> hd (drop r a) \<noteq> hd (drop r b)"
      using ne le by (auto simp: hd_drop_conv_nth)
  qed
qed

subsection \<open>What a node stores\<close>

function lookup :: "'v node \<Rightarrow> string \<Rightarrow> 'v leafNode option" where
  "lookup n s =
     (if s = [] then leaf n
      else
        (case getEdge n (hd s) of
           None \<Rightarrow> None
         | Some c \<Rightarrow>
             if HasPrefix s (prefix c) then lookup c (drop (length (prefix c)) s) else None))"
  by pat_completeness auto
termination
  by (relation "measure (\<lambda>(n, s). size n)") (auto simp: getEdge_size)

declare lookup.simps [simp del]

definition look :: "'v node \<Rightarrow> string \<Rightarrow> 'v leafNode option" where
  "look n s = (if HasPrefix s (prefix n) then lookup n (drop (length (prefix n)) s) else None)"

lemma lookup_Nil [simp]: "lookup n [] = leaf n"
  by (subst lookup.simps) simp

lemma lookup_Cons:
  "s \<noteq> [] \<Longrightarrow> lookup n s = (case getEdge n (hd s) of None \<Rightarrow> None | Some c \<Rightarrow> look c s)"
  by (subst lookup.simps) (simp add: look_def split: option.splits)

lemma Get_loop_lookup: "Get_loop n s = map_option val (lookup n s)"
proof (induction n s rule: lookup.induct)
  case (1 n s)
  show ?case
  proof (cases "s = []")
    case True
    then show ?thesis by (subst Get_loop.simps) (simp split: option.splits)
  next
    case False
    show ?thesis
    proof (cases "getEdge n (hd s)")
      case None
      with False show ?thesis
        by (subst Get_loop.simps) (simp add: lookup_Cons)
    next
      case (Some c)
      with False "1.IH" [of c] show ?thesis
        by (subst Get_loop.simps) (simp add: lookup_Cons look_def)
    qed
  qed
qed

fun wfn :: "string \<Rightarrow> 'v node \<Rightarrow> bool" where
  "wfn path (Node lf p es) =
     ((case lf of None \<Rightarrow> True | Some l \<Rightarrow> key l = path) \<and>
      sortedEdges es \<and>
      (\<forall>e \<in> set es. prefix (snd e) \<noteq> [] \<and> hd (prefix (snd e)) = fst e \<and>
          wfn (path @ prefix (snd e)) (snd e)))"

lemma wfn_iff:
  "wfn path n \<longleftrightarrow>
     (\<forall>l. leaf n = Some l \<longrightarrow> key l = path) \<and> sortedEdges (edges n) \<and>
     (\<forall>e \<in> set (edges n). prefix (snd e) \<noteq> [] \<and> hd (prefix (snd e)) = fst e \<and>
          wfn (path @ prefix (snd e)) (snd e))"
  by (cases n) (auto split: option.splits)

lemma wfn_sorted: "wfn path n \<Longrightarrow> sortedEdges (edges n)"
  by (cases n) simp

lemma wfn_prefix_irrelevant: "wfn path (Node lf p es) \<Longrightarrow> wfn path (Node lf p' es)"
  by simp

lemma wfn_getEdge:
  assumes "wfn path n" "getEdge n l = Some c"
  shows "prefix c \<noteq> []" "hd (prefix c) = l" "wfn (path @ prefix c) c"
proof -
  have "sortedEdges (edges n)" using assms(1) by (rule wfn_sorted)
  then have "map_of (edges n) l = Some c" using assms(2) by (simp add: getEdge_map_of)
  then have "(l, c) \<in> set (edges n)" by (rule map_of_SomeD)
  with assms(1) show "prefix c \<noteq> []" "hd (prefix c) = l" "wfn (path @ prefix c) c"
    by (auto simp: wfn_iff [of path n])
qed

lemma getEdge_edges_cong: "edges n = edges m \<Longrightarrow> getEdge n l = getEdge m l"
  by (simp add: getEdge_def edgeIndex_def Let_def)

lemma edgeIndex_edges_cong: "edges n = edges m \<Longrightarrow> edgeIndex n l = edgeIndex m l"
  by (simp add: edgeIndex_def)

lemma lookup_edges_cong:
  "edges n = edges m \<Longrightarrow> leaf n = leaf m \<Longrightarrow> lookup n s = lookup m s"
  by (subst (1 2) lookup.simps) (simp add: getEdge_edges_cong [of n m])

lemma lookup_Node:
  "lookup (Node lf p (edges n)) s = (if s = [] then lf else lookup n s)"
  by (subst (1 2) lookup.simps) (simp add: getEdge_edges_cong [of "Node lf p (edges n)" n])

text \<open>The shape of the edge list after each of the three writes.\<close>

lemma setEdgeNode_shape:
  assumes "sortedEdges (edges n)" "getEdge n l = Some c"
  obtains xs ys where "edges n = xs @ (l, c) # ys" "setEdgeNode n l c' = Node (leaf n) (prefix n) (xs @ (l, c') # ys)"
    "\<forall>e \<in> set xs. fst e < l" "\<forall>e \<in> set ys. l < fst e"
  using assms(1)
proof (cases rule: getEdge_cases [where n = n and l = l])
  case (found xs c0 ys)
  with assms(2) have "c0 = c" by simp
  with found show ?thesis
    by (intro that [of xs ys]) (auto simp: setEdgeNode_edges)
next
  case (missing xs ys)
  with assms(2) show ?thesis by simp
qed

lemma delEdge_shape:
  assumes "sortedEdges (edges n)" "getEdge n l = Some c"
  obtains xs ys where "edges n = xs @ (l, c) # ys" "delEdge n l = Node (leaf n) (prefix n) (xs @ ys)"
    "\<forall>e \<in> set xs. fst e < l" "\<forall>e \<in> set ys. l < fst e"
  using assms(1)
proof (cases rule: getEdge_cases [where n = n and l = l])
  case (found xs c0 ys)
  with assms(2) have "c0 = c" by simp
  with found show ?thesis
    by (intro that [of xs ys]) (auto simp: delEdge_edges)
next
  case (missing xs ys)
  with assms(2) show ?thesis by simp
qed

lemma addEdge_shape:
  assumes "sortedEdges (edges n)" "getEdge n l = None"
  obtains xs ys where "edges n = xs @ ys" "addEdge n (l, c') = Node (leaf n) (prefix n) (xs @ (l, c') # ys)"
    "\<forall>e \<in> set xs. fst e < l" "\<forall>e \<in> set ys. l < fst e"
  using assms(1)
proof (cases rule: getEdge_cases [where n = n and l = l])
  case (found xs c0 ys)
  with assms(2) show ?thesis by simp
next
  case (missing xs ys)
  then show ?thesis
    by (intro that [of xs ys]) (auto simp: addEdge_edges)
qed

lemma map_of_split:
  assumes "\<forall>e \<in> set xs. fst e < (l::char)" "\<forall>e \<in> set ys. l < fst e"
  shows "map_of (xs @ (l, c) # ys) l' = (if l' = l then Some c else map_of (xs @ ys) l')"
proof -
  have "map_of xs l = None" using assms(1) by (force simp: map_of_eq_None_iff)
  then show ?thesis by (auto simp: map_add_def split: option.splits)
qed

lemma sortedEdges_insert:
  assumes "sortedEdges (xs @ ys)" "\<forall>e \<in> set xs. fst e < l" "\<forall>e \<in> set ys. l < fst e"
  shows "sortedEdges (xs @ (l, c) # ys)"
  using assms by (auto simp: sortedEdges_append sortedEdges_Cons)

lemma sortedEdges_remove:
  "sortedEdges (xs @ e # ys) \<Longrightarrow> sortedEdges (xs @ ys)"
  by (auto simp: sortedEdges_append sortedEdges_Cons)

lemma getEdge_Node_sorted:
  "sortedEdges es \<Longrightarrow> getEdge (Node lf p es) l = map_of es l"
  using getEdge_map_of [of "Node lf p es" l] by simp

lemma getEdge_setEdgeNode:
  assumes "sortedEdges (edges n)" "getEdge n l = Some c"
  shows "getEdge (setEdgeNode n l c') l' = (if l' = l then Some c' else getEdge n l')"
  using assms
proof (cases rule: setEdgeNode_shape [where c' = c'])
  case (1 xs ys)
  have s: "sortedEdges (xs @ (l, c') # ys)"
    using assms(1) 1 by (auto intro: sortedEdges_insert sortedEdges_remove)
  show ?thesis
    using 1 assms(1) s
    by (simp add: getEdge_Node_sorted getEdge_map_of [of n] map_of_split [of xs l ys] del: map_of_append)
qed

lemma getEdge_addEdge:
  assumes "sortedEdges (edges n)" "getEdge n l = None"
  shows "getEdge (addEdge n (l, c')) l' = (if l' = l then Some c' else getEdge n l')"
  using assms
proof (cases rule: addEdge_shape [where c' = c'])
  case (1 xs ys)
  have s: "sortedEdges (xs @ (l, c') # ys)"
    using assms(1) 1 by (auto intro: sortedEdges_insert)
  show ?thesis
    using 1 assms(1) s
    by (simp add: getEdge_Node_sorted getEdge_map_of [of n] map_of_split [of xs l ys] del: map_of_append)
qed

lemma getEdge_delEdge:
  assumes "sortedEdges (edges n)"
  shows "getEdge (delEdge n l) l' = (if l' = l then None else getEdge n l')"
proof (cases "getEdge n l")
  case None
  then show ?thesis by (auto simp: delEdge_missing)
next
  case (Some c)
  with assms show ?thesis
  proof (cases rule: delEdge_shape)
    case (1 xs ys)
    have s: "sortedEdges (xs @ ys)"
      using assms(1) 1 by (auto intro: sortedEdges_remove)
    have "map_of (xs @ ys) l = None"
      using 1 by (force simp: map_of_eq_None_iff)
    then show ?thesis
      using 1 assms(1) s
      by (simp add: getEdge_Node_sorted getEdge_map_of [of n] map_of_split [of xs l ys] del: map_of_append)
  qed
qed

lemma lookup_setEdgeNode:
  assumes "sortedEdges (edges n)" "getEdge n l = Some c"
  shows "lookup (setEdgeNode n l c') s = (if s \<noteq> [] \<and> hd s = l then look c' s else lookup n s)"
proof (cases "s = []")
  case True
  then show ?thesis by (simp add: setEdgeNode_def)
next
  case False
  then show ?thesis
    by (simp add: lookup_Cons getEdge_setEdgeNode [OF assms])
qed

lemma lookup_addEdge:
  assumes "sortedEdges (edges n)" "getEdge n l = None"
  shows "lookup (addEdge n (l, c')) s = (if s \<noteq> [] \<and> hd s = l then look c' s else lookup n s)"
proof (cases "s = []")
  case True
  then show ?thesis by (simp add: addEdge_def Let_def)
next
  case False
  then show ?thesis
    by (simp add: lookup_Cons getEdge_addEdge [OF assms])
qed

lemma lookup_delEdge:
  assumes "sortedEdges (edges n)"
  shows "lookup (delEdge n l) s = (if s \<noteq> [] \<and> hd s = l then None else lookup n s)"
proof (cases "s = []")
  case True
  then show ?thesis by (simp add: delEdge_def Let_def)
next
  case False
  then show ?thesis
    by (simp add: lookup_Cons getEdge_delEdge [OF assms])
qed

lemma wfn_setEdgeNode:
  assumes "wfn P n" "getEdge n l = Some c" "prefix c' \<noteq> []" "hd (prefix c') = l"
    "wfn (P @ prefix c') c'"
  shows "wfn P (setEdgeNode n l c')"
proof -
  have so: "sortedEdges (edges n)" using assms(1) by (rule wfn_sorted)
  from so assms(2) show ?thesis
  proof (cases rule: setEdgeNode_shape [where c' = c'])
    case (1 xs ys)
    have "sortedEdges (xs @ (l, c') # ys)"
      using so 1 by (auto intro: sortedEdges_insert sortedEdges_remove)
    then show ?thesis
      using 1 assms wfn_iff [of P n] by (auto split: option.splits)
  qed
qed

lemma wfn_addEdge:
  assumes "wfn P n" "getEdge n l = None" "prefix c' \<noteq> []" "hd (prefix c') = l"
    "wfn (P @ prefix c') c'"
  shows "wfn P (addEdge n (l, c'))"
proof -
  have so: "sortedEdges (edges n)" using assms(1) by (rule wfn_sorted)
  from so assms(2) show ?thesis
  proof (cases rule: addEdge_shape [where c' = c'])
    case (1 xs ys)
    have "sortedEdges (xs @ (l, c') # ys)"
      using so 1 by (auto intro: sortedEdges_insert)
    then show ?thesis
      using 1 assms wfn_iff [of P n] by (auto split: option.splits)
  qed
qed

lemma wfn_delEdge:
  assumes "wfn P n"
  shows "wfn P (delEdge n l)"
proof (cases "getEdge n l")
  case None
  with assms show ?thesis by (simp add: delEdge_missing)
next
  case (Some c)
  have so: "sortedEdges (edges n)" using assms(1) by (rule wfn_sorted)
  from so Some show ?thesis
  proof (cases rule: delEdge_shape)
    case (1 xs ys)
    have "sortedEdges (xs @ ys)"
      using so 1 by (auto intro: sortedEdges_remove)
    then show ?thesis
      using 1 assms wfn_iff [of P n] by (auto split: option.splits)
  qed
qed

lemma edgeIndex_Nil [simp]: "edgeIndex (Node lf p []) l = 0"
  by (simp add: edgeIndex_def sort_Search_def sort_Search_loop.simps)

lemma getEdge_Nil [simp]: "getEdge (Node lf p []) l = None"
  by (simp add: getEdge_def)

lemma addEdge_Nil [simp]: "addEdge (Node lf p []) e = Node lf p [e]"
  by (simp add: addEdge_def)

lemma getEdge_single [simp]: "getEdge (Node lf p [(l, c)]) l' = (if l' = l then Some c else None)"
  by (simp add: getEdge_Node_sorted sortedEdges_def)

lemma HasPrefix_refl [simp]: "HasPrefix s s"
  by (simp add: HasPrefix_def)

lemma look_Node_leaf [simp]:
  "look (Node (Some lf) s []) s' = (if s' = s then Some lf else None)"
proof (cases "HasPrefix s' s")
  case True
  then obtain r where r: "s' = s @ r" by (auto simp: HasPrefix_iff)
  show ?thesis
    by (cases "r = []") (simp_all add: look_def r lookup_Cons)
next
  case False
  then have "s' \<noteq> s" by (auto simp: HasPrefix_iff)
  with False show ?thesis by (simp add: look_def)
qed

lemma look_append [simp]: "look n (prefix n @ r) = lookup n r"
  by (simp add: look_def)

lemma look_not_prefix: "\<not> HasPrefix s (prefix n) \<Longrightarrow> look n s = None"
  by (simp add: look_def)

lemma look_Node_append [simp]: "look (Node lf p es) (p @ r) = lookup (Node lf p es) r"
  by (simp add: look_def)

text \<open>The node that a split puts in the place of \<open>c\<close>.\<close>

definition splitNode :: "'v node \<Rightarrow> string \<Rightarrow> string \<Rightarrow> string \<Rightarrow> 'v leafNode \<Rightarrow> 'v node" where
  "splitNode c q p2 s2 lf =
     (let child = addEdge (Node None q []) (hd p2, Node (leaf c) p2 (edges c))
      in if s2 = [] then Node (Some lf) (prefix child) (edges child)
         else addEdge child (hd s2, Node (Some lf) s2 []))"

lemma splitNode_eq:
  assumes "p2 \<noteq> []" "s2 = [] \<or> hd s2 \<noteq> hd p2"
  shows "prefix (splitNode c q p2 s2 lf) = q"
    and "leaf (splitNode c q p2 s2 lf) = (if s2 = [] then Some lf else None)"
    and "sortedEdges (edges (splitNode c q p2 s2 lf))"
    and "getEdge (splitNode c q p2 s2 lf) l =
          (if l = hd p2 then Some (Node (leaf c) p2 (edges c))
           else if s2 \<noteq> [] \<and> l = hd s2 then Some (Node (Some lf) s2 []) else None)"
    and "set (edges (splitNode c q p2 s2 lf)) =
          (if s2 = [] then {(hd p2, Node (leaf c) p2 (edges c))}
           else {(hd p2, Node (leaf c) p2 (edges c)), (hd s2, Node (Some lf) s2 [])})"
proof -
  let ?c2 = "Node (leaf c) p2 (edges c)"
  let ?child = "Node None q [(hd p2, ?c2)]"
  have so: "sortedEdges (edges ?child)" by (simp add: sortedEdges_def)
  show "prefix (splitNode c q p2 s2 lf) = q"
    by (simp add: splitNode_def addEdge_def Let_def)
  show "leaf (splitNode c q p2 s2 lf) = (if s2 = [] then Some lf else None)"
    by (simp add: splitNode_def addEdge_def Let_def)
  show "getEdge (splitNode c q p2 s2 lf) l =
          (if l = hd p2 then Some ?c2
           else if s2 \<noteq> [] \<and> l = hd s2 then Some (Node (Some lf) s2 []) else None)"
  proof (cases "s2 = []")
    case True
    then show ?thesis
      by (simp add: splitNode_def getEdge_edges_cong [of "Node (Some lf) q [(hd p2, ?c2)]" ?child])
  next
    case False
    with assms have ne: "hd s2 \<noteq> hd p2" by simp
    then have "getEdge ?child (hd s2) = None" by simp
    from getEdge_addEdge [OF so this, of "Node (Some lf) s2 []" l] False ne show ?thesis
      by (auto simp: splitNode_def)
  qed
  show "sortedEdges (edges (splitNode c q p2 s2 lf))"
  proof (cases "s2 = []")
    case True
    then show ?thesis by (simp add: splitNode_def sortedEdges_def)
  next
    case False
    with assms have ne: "hd s2 \<noteq> hd p2" by simp
    then have "getEdge ?child (hd s2) = None" by simp
    with so show ?thesis
    proof (cases rule: addEdge_shape [where c' = "Node (Some lf) s2 []"])
      case (1 xs ys)
      then show ?thesis using False so
        by (auto simp: splitNode_def intro: sortedEdges_insert)
    qed
  qed
  show "set (edges (splitNode c q p2 s2 lf)) =
          (if s2 = [] then {(hd p2, ?c2)} else {(hd p2, ?c2), (hd s2, Node (Some lf) s2 [])})"
  proof (cases "s2 = []")
    case True
    then show ?thesis by (simp add: splitNode_def)
  next
    case False
    with assms have ne: "hd s2 \<noteq> hd p2" by simp
    then have "getEdge ?child (hd s2) = None" by simp
    with so show ?thesis
    proof (cases rule: addEdge_shape [where c' = "Node (Some lf) s2 []"])
      case (1 xs ys)
      from 1(1) have "[(hd p2, ?c2)] = xs @ ys" by simp
      then have "set [(hd p2, ?c2)] = set (xs @ ys)" by (rule arg_cong)
      then have "set xs \<union> set ys = {(hd p2, ?c2)}" by simp
      with 1(2) False show ?thesis
        by (auto simp: splitNode_def)
    qed
  qed
qed

lemma longestPrefix_spec:
  "longestPrefix a b \<le> length a \<and> longestPrefix a b \<le> length b \<and>
   take (longestPrefix a b) a = take (longestPrefix a b) b \<and>
   (longestPrefix a b < length a \<and> longestPrefix a b < length b \<longrightarrow>
      a ! longestPrefix a b \<noteq> b ! longestPrefix a b)"
proof -
  define m where "m = (if length b < length a then length b else length a)"
  define r where "r = longestPrefix a b"
  have r: "r = longestPrefix_loop a b m 0"
    by (simp add: r_def longestPrefix_def m_def Let_def)
  have "0 \<le> r \<and> r \<le> m \<and> take r a = take r b \<and> (r < m \<longrightarrow> a ! r \<noteq> b ! r)"
    unfolding r by (rule longestPrefix_loop_spec) (auto simp: m_def)
  then show ?thesis
    unfolding r_def [symmetric] by (auto simp: m_def split: if_splits)
qed

lemma longestPrefix_append:
  assumes "s2 = [] \<or> p2 = [] \<or> hd s2 \<noteq> hd p2"
  shows "longestPrefix (q @ s2) (q @ p2) = length q"
proof -
  define r where "r = longestPrefix (q @ s2) (q @ p2)"
  have le: "r \<le> length (q @ s2)" "r \<le> length (q @ p2)"
    and tk: "take r (q @ s2) = take r (q @ p2)"
    and ne: "r < length (q @ s2) \<Longrightarrow> r < length (q @ p2) \<Longrightarrow> (q @ s2) ! r \<noteq> (q @ p2) ! r"
    using longestPrefix_spec [of "q @ s2" "q @ p2"] by (auto simp: r_def)
  have "\<not> r < length q"
  proof
    assume "r < length q"
    with ne show False by (simp add: nth_append)
  qed
  moreover have "\<not> length q < r"
  proof
    assume lt: "length q < r"
    with le have s2: "s2 \<noteq> []" and p2: "p2 \<noteq> []" by auto
    from lt have a: "take r (q @ s2) ! length q = (q @ s2) ! length q" by (rule nth_take)
    from lt have b: "take r (q @ p2) ! length q = (q @ p2) ! length q" by (rule nth_take)
    from a b tk have "(q @ s2) ! length q = (q @ p2) ! length q" by (simp only:)
    then have "hd s2 = hd p2" using s2 p2 by (simp add: nth_append hd_conv_nth)
    with assms s2 p2 show False by simp
  qed
  ultimately show ?thesis by (simp add: r_def)
qed

lemma longestPrefix_HasPrefix: "longestPrefix s p = length p \<longleftrightarrow> HasPrefix s p"
proof
  assume eq: "longestPrefix s p = length p"
  have "take (length p) s = take (length p) p" "length p \<le> length s"
    using longestPrefix_spec [of s p] by (simp_all add: eq)
  then show "HasPrefix s p" by (simp add: HasPrefix_def)
next
  assume "HasPrefix s p"
  then obtain r where "s = p @ r" by (auto simp: HasPrefix_iff)
  then show "longestPrefix s p = length p"
    using longestPrefix_append [of r "[]" p] by simp
qed

lemma Insert_loop_Nil:
  "Insert_loop n [] path v sz =
     (case leaf n of
        Some l \<Rightarrow> Some (Node (Some (LeafNode (key l) v)) (prefix n) (edges n), sz, val l, True)
      | None \<Rightarrow> Some (Node (Some (LeafNode path v)) (prefix n) (edges n), sz + 1, 0, False))"
  by (subst Insert_loop.simps) simp

lemma Insert_loop_missing:
  "s \<noteq> [] \<Longrightarrow> getEdge n (hd s) = None \<Longrightarrow>
   Insert_loop n s path v sz =
     Some (addEdge n (hd s, Node (Some (LeafNode path v)) s []), sz + 1, 0, False)"
  by (subst Insert_loop.simps) simp

lemma Insert_loop_descend:
  "s \<noteq> [] \<Longrightarrow> getEdge n (hd s) = Some c \<Longrightarrow> HasPrefix s (prefix c) \<Longrightarrow>
   Insert_loop n s path v sz =
     (case Insert_loop c (drop (length (prefix c)) s) path v sz of
        None \<Rightarrow> None
      | Some (c', r) \<Rightarrow> Some (setEdgeNode n (hd s) c', r))"
proof -
  assume a: "s \<noteq> []" "getEdge n (hd s) = Some c" "HasPrefix s (prefix c)"
  then have lp: "longestPrefix s (prefix c) = length (prefix c)"
    by (simp add: longestPrefix_HasPrefix)
  show ?thesis
    using a by (subst Insert_loop.simps) (simp add: lp)
qed

lemma Insert_loop_split:
  assumes "getEdge n (hd (q @ s2)) = Some c" "prefix c = q @ p2" "p2 \<noteq> []" "q \<noteq> []"
    "s2 = [] \<or> hd s2 \<noteq> hd p2"
  shows "Insert_loop n (q @ s2) path v sz =
     Some (setEdgeNode n (hd q) (splitNode c q p2 s2 (LeafNode path v)), sz + 1, 0, False)"
proof -
  have lp: "longestPrefix (q @ s2) (q @ p2) = length q"
    using assms by (simp add: longestPrefix_append)
  have nth: "(q @ p2) ! length q = hd p2"
    using assms(3) by (simp add: hd_conv_nth nth_append)
  show ?thesis
    using assms
    by (subst Insert_loop.simps)
      (simp add: lp nth updateEdge_setEdgeNode splitNode_def Let_def)
qed

lemma HasPrefix_hd: "HasPrefix t p \<Longrightarrow> p \<noteq> [] \<Longrightarrow> hd t = hd p"
  by (auto simp: HasPrefix_iff)

lemma node_collapse [simp]: "Node (leaf c) (prefix c) (edges c) = c"
  by (cases c) simp

lemma look_splitNode:
  assumes "p2 \<noteq> []" "s2 = [] \<or> hd s2 \<noteq> hd p2" "prefix c = q @ p2"
  shows "look (splitNode c q p2 s2 lf) s' = (if s' = q @ s2 then Some lf else look c s')"
proof (cases "HasPrefix s' q")
  case False
  then have "s' \<noteq> q @ s2" "\<not> HasPrefix s' (q @ p2)" by (auto simp: HasPrefix_iff)
  with False assms show ?thesis
    by (simp add: look_def splitNode_eq(1))
next
  case True
  then obtain t where t: "s' = q @ t" by (auto simp: HasPrefix_iff)
  let ?sp = "splitNode c q p2 s2 lf"
  let ?c2 = "Node (leaf c) p2 (edges c)"
  have L: "look ?sp (q @ t) = lookup ?sp t"
    using assms by (simp add: look_def splitNode_eq(1))
  have R: "look c (q @ t) = (if HasPrefix t p2 then lookup c (drop (length p2) t) else None)"
    using assms(3) by (simp add: look_def)
  have c2: "look ?c2 t = (if HasPrefix t p2 then lookup c (drop (length p2) t) else None)"
    by (simp add: look_def lookup_edges_cong [of ?c2 c])
  have "lookup ?sp t =
      (if t = s2 then Some lf
       else if HasPrefix t p2 then lookup c (drop (length p2) t) else None)"
  proof (cases "t = []")
    case True
    with assms show ?thesis
      by (auto simp: splitNode_eq(2) HasPrefix_iff)
  next
    case False
    have G: "\<And>l. getEdge ?sp l =
          (if l = hd p2 then Some ?c2
           else if s2 \<noteq> [] \<and> l = hd s2 then Some (Node (Some lf) s2 []) else None)"
      using assms(1,2) by (rule splitNode_eq(4))
    consider (a) "hd t = hd p2" | (b) "hd t \<noteq> hd p2" "s2 \<noteq> []" "hd t = hd s2"
      | (c) "hd t \<noteq> hd p2" "\<not> (s2 \<noteq> [] \<and> hd t = hd s2)" by blast
    then show ?thesis
    proof cases
      case a
      with assms False have "t \<noteq> s2" by auto
      with a False show ?thesis
        by (simp add: lookup_Cons G c2)
    next
      case b
      with assms(1) have "\<not> HasPrefix t p2" by (auto dest: HasPrefix_hd)
      with b False show ?thesis
        by (simp add: lookup_Cons G)
    next
      case c
      with assms(1) have "\<not> HasPrefix t p2" by (auto dest: HasPrefix_hd)
      moreover from c False have "t \<noteq> s2" by auto
      ultimately show ?thesis using c False
        by (simp add: lookup_Cons G)
    qed
  qed
  then show ?thesis
    unfolding t L R by simp
qed

lemma wfn_splitNode:
  assumes "p2 \<noteq> []" "s2 = [] \<or> hd s2 \<noteq> hd p2" "prefix c = q @ p2" "wfn (P @ prefix c) c"
    "key lf = P @ q @ s2"
  shows "wfn (P @ q) (splitNode c q p2 s2 lf)"
proof -
  have "wfn (P @ q @ p2) (Node (leaf c) p2 (edges c))"
    using assms(3,4) wfn_iff [of "P @ q @ p2" c] by (auto split: option.splits)
  then show ?thesis
    using assms splitNode_eq(2,3,5) [OF assms(1,2), of c q lf]
    by (subst wfn_iff) auto
qed

definition insertSpec ::
  "string \<Rightarrow> ('v::zero) node \<Rightarrow> string \<Rightarrow> 'v \<Rightarrow> int \<Rightarrow> ('v node \<times> int \<times> 'v \<times> bool) option \<Rightarrow> bool"
where
  "insertSpec P n s v sz r \<longleftrightarrow>
     (\<exists>n'. r = Some (n', (if lookup n s = None then sz + 1 else sz),
                     (case lookup n s of None \<Rightarrow> 0 | Some l \<Rightarrow> val l), lookup n s \<noteq> None) \<and>
           prefix n' = prefix n \<and> wfn P n' \<and>
           (\<forall>s'. lookup n' s' = (if s' = s then Some (LeafNode (P @ s) v) else lookup n s')))"

lemma setEdgeNode_prefix [simp]: "prefix (setEdgeNode n l c) = prefix n"
  by (simp add: setEdgeNode_def)

lemma addEdge_prefix [simp]: "prefix (addEdge n e) = prefix n"
  by (simp add: addEdge_def Let_def)

lemma insertSpec_Nil:
  assumes wf: "wfn P n"
  shows "insertSpec P n [] v sz (Insert_loop n [] (P @ []) v sz)"
proof (cases "leaf n")
  case None
  have "wfn P (Node (Some (LeafNode P v)) (prefix n) (edges n))"
    using wf wfn_iff [of P n] by simp
  with None show ?thesis
    by (simp add: insertSpec_def Insert_loop_Nil lookup_Node)
next
  case (Some l)
  with wf wfn_iff [of P n] have k: "key l = P" by simp
  have "wfn P (Node (Some (LeafNode P v)) (prefix n) (edges n))"
    using wf wfn_iff [of P n] by simp
  with Some k show ?thesis
    by (simp add: insertSpec_def Insert_loop_Nil lookup_Node)
qed

lemma insertSpec_missing:
  assumes wf: "wfn P n" and s: "s \<noteq> []" and None: "getEdge n (hd s) = None"
  shows "insertSpec P n s v sz (Insert_loop n s (P @ s) v sz)"
proof -
  have so: "sortedEdges (edges n)" using wf by (rule wfn_sorted)
  let ?c' = "Node (Some (LeafNode (P @ s) v)) s []"
  have "wfn (P @ s) ?c'" by simp
  then have w: "wfn P (addEdge n (hd s, ?c'))"
    using wf None s by (intro wfn_addEdge) simp_all
  have ln: "lookup n s = None"
    using s None by (simp add: lookup_Cons)
  have lk: "lookup (addEdge n (hd s, ?c')) s' =
      (if s' = s then Some (LeafNode (P @ s) v) else lookup n s')" for s'
  proof (cases "s' \<noteq> [] \<and> hd s' = hd s")
    case True
    then have "lookup n s' = None" using None by (simp add: lookup_Cons)
    with True show ?thesis by (simp add: lookup_addEdge [OF so None])
  next
    case False
    with s have "s' \<noteq> s" by auto
    with False show ?thesis by (auto simp: lookup_addEdge [OF so None])
  qed
  show ?thesis
    unfolding insertSpec_def Insert_loop_missing [OF s None]
    using w ln lk by simp
qed

lemma insertSpec_descend:
  assumes wf: "wfn P n" and s: "s \<noteq> []" and Some: "getEdge n (hd s) = Some c"
    and r: "s = prefix c @ r"
    and IH: "insertSpec (P @ prefix c) c r v sz (Insert_loop c r (P @ s) v sz)"
  shows "insertSpec P n s v sz (Insert_loop n s (P @ s) v sz)"
proof -
  have so: "sortedEdges (edges n)" using wf by (rule wfn_sorted)
  note c = wfn_getEdge [OF wf Some]
  from IH obtain c' where c':
    "Insert_loop c r (P @ s) v sz =
        Some (c', (if lookup c r = None then sz + 1 else sz),
               (case lookup c r of None \<Rightarrow> 0 | Some l \<Rightarrow> val l), lookup c r \<noteq> None)"
    "prefix c' = prefix c" "wfn (P @ prefix c) c'"
    "\<And>s'. lookup c' s' = (if s' = r then Some (LeafNode (P @ s) v) else lookup c s')"
    unfolding insertSpec_def r by auto
  have ln: "lookup n s = lookup c r"
    using s Some by (simp add: lookup_Cons) (simp add: r)
  have w: "wfn P (setEdgeNode n (hd s) c')"
    using wf Some c c' by (intro wfn_setEdgeNode) simp_all
  have lk: "lookup (setEdgeNode n (hd s) c') s' =
      (if s' = s then Some (LeafNode (P @ s) v) else lookup n s')" for s'
  proof (cases "s' \<noteq> [] \<and> hd s' = hd s")
    case False
    with s have "s' \<noteq> s" by auto
    with False show ?thesis by (auto simp: lookup_setEdgeNode [OF so Some])
  next
    case True
    then have a: "lookup n s' = look c s'" using Some by (simp add: lookup_Cons)
    have b: "look c' s' = (if s' = s then Some (LeafNode (P @ s) v) else look c s')"
    proof (cases "HasPrefix s' (prefix c)")
      case True
      then obtain t where "s' = prefix c @ t" by (auto simp: HasPrefix_iff)
      then show ?thesis by (simp add: look_def c'(2) c'(4) r)
    next
      case False
      then have "s' \<noteq> s" by (auto simp: r)
      with False show ?thesis by (simp add: look_def c'(2))
    qed
    from True a b show ?thesis
      by (simp add: lookup_setEdgeNode [OF so Some])
  qed
  have hp: "HasPrefix s (prefix c)" by (simp add: r)
  have dr: "drop (length (prefix c)) s = r" by (simp add: r)
  show ?thesis
    unfolding insertSpec_def Insert_loop_descend [OF s Some hp] dr c'(1)
    using w ln lk by simp
qed

lemma insertSpec_split:
  assumes wf: "wfn P n" and s: "s \<noteq> []" and Some: "getEdge n (hd s) = Some c"
    and np: "\<not> HasPrefix s (prefix c)"
  shows "insertSpec P n s v sz (Insert_loop n s (P @ s) v sz)"
proof -
  have so: "sortedEdges (edges n)" using wf by (rule wfn_sorted)
  note c = wfn_getEdge [OF wf Some]
  obtain q s2 p2 where sp: "s = q @ s2" "prefix c = q @ p2"
    "s2 = [] \<or> p2 = [] \<or> hd s2 \<noteq> hd p2"
    by (rule longestPrefix_split [of s "prefix c"])
  from np sp have p2: "p2 \<noteq> []" by auto
  have q: "q \<noteq> []"
  proof
    assume "q = []"
    with sp s c p2 show False by auto
  qed
  from sp p2 have d: "s2 = [] \<or> hd s2 \<noteq> hd p2" by simp
  let ?lf = "LeafNode (P @ s) v"
  let ?sp = "splitNode c q p2 s2 ?lf"
  have hq: "hd q = hd s" using q sp by simp
  have "getEdge n (hd (q @ s2)) = Some c" using Some sp(1) by simp
  from Insert_loop_split [OF this sp(2) p2 q d, of "P @ s" v sz]
  have I: "Insert_loop n s (P @ s) v sz = Some (setEdgeNode n (hd s) ?sp, sz + 1, 0, False)"
    by (simp add: hq sp(1) [symmetric])
  have ln: "lookup n s = None"
    using s Some np by (simp add: lookup_Cons look_def)
  have "key ?lf = P @ q @ s2" by (simp add: sp(1))
  with p2 d sp(2) c(3) have "wfn (P @ q) ?sp" by (rule wfn_splitNode)
  moreover have "prefix ?sp = q" using p2 d by (rule splitNode_eq(1))
  ultimately have w: "wfn P (setEdgeNode n (hd s) ?sp)"
    using wf Some q hq by (intro wfn_setEdgeNode) simp_all
  have lk: "lookup (setEdgeNode n (hd s) ?sp) s' =
      (if s' = s then Some ?lf else lookup n s')" for s'
  proof (cases "s' \<noteq> [] \<and> hd s' = hd s")
    case False
    with s have "s' \<noteq> s" by auto
    with False show ?thesis by (auto simp: lookup_setEdgeNode [OF so Some])
  next
    case True
    then have "lookup n s' = look c s'" using Some by (simp add: lookup_Cons)
    with True look_splitNode [OF p2 d sp(2), of ?lf s'] show ?thesis
      by (simp add: lookup_setEdgeNode [OF so Some] sp(1) [symmetric])
  qed
  show ?thesis
    unfolding insertSpec_def I using w ln lk by simp
qed

lemma Insert_loop_spec:
  "wfn P n \<Longrightarrow> insertSpec P n s v sz (Insert_loop n s (P @ s) v sz)"
proof (induction n s arbitrary: P rule: lookup.induct)
  case (1 n s)
  note wf = \<open>wfn P n\<close>
  show ?case
  proof (cases "s = []")
    case True
    with wf insertSpec_Nil [of P n v sz] show ?thesis by simp
  next
    case False
    show ?thesis
    proof (cases "getEdge n (hd s)")
      case None
      with wf False show ?thesis by (rule insertSpec_missing)
    next
      case (Some c)
      note c = wfn_getEdge [OF wf Some]
      show ?thesis
      proof (cases "HasPrefix s (prefix c)")
        case True
        then obtain r where r: "s = prefix c @ r" by (auto simp: HasPrefix_iff)
        have "insertSpec (P @ prefix c) c (drop (length (prefix c)) s) v sz
                (Insert_loop c (drop (length (prefix c)) s)
                   ((P @ prefix c) @ drop (length (prefix c)) s) v sz)"
          using False Some True c(3) by (rule "1.IH")
        then have "insertSpec (P @ prefix c) c r v sz (Insert_loop c r (P @ s) v sz)"
          by (simp add: r)
        with wf False Some r show ?thesis by (rule insertSpec_descend)
      next
        case False
        with wf \<open>s \<noteq> []\<close> Some show ?thesis by (rule insertSpec_split)
      qed
    qed
  qed
qed

lemma look_prefix: "look n (prefix n @ r) = lookup n r"
  by (simp add: look_def)

lemma look_Node: "look (Node lf p es) (p @ r) = lookup (Node lf p es) r"
  by (simp add: look_def)

text \<open>Merging a leafless node with its only child keeps what the node stores.\<close>

lemma mergeChild_spec:
  assumes wf: "wfn (Q @ prefix m) m" and lf: "leaf m = None" and one: "length (edges m) = 1"
  obtains m' where "mergeChild m = Some m'" "wfn (Q @ prefix m') m'"
    "prefix m' = prefix m @ prefix (snd (hd (edges m)))" "prefix (snd (hd (edges m))) \<noteq> []"
    "\<And>t. look m' t = look m t"
proof -
  from one obtain e where e: "edges m = [e]"
    by (cases "edges m") auto
  obtain l1 c1 where lc: "e = (l1, c1)" by (cases e)
  from wf e lc wfn_iff [of "Q @ prefix m" m]
  have c1: "prefix c1 \<noteq> []" "hd (prefix c1) = l1" "wfn (Q @ prefix m @ prefix c1) c1"
    by auto
  let ?m' = "Node (leaf c1) (prefix m @ prefix c1) (edges c1)"
  have mc: "mergeChild m = Some ?m'"
    using e lc by (cases m) simp
  have w: "wfn (Q @ prefix ?m') ?m'"
    using c1(3) wfn_iff [of "Q @ prefix m @ prefix c1" c1] by (auto split: option.splits)
  have G: "getEdge m l = (if l = l1 then Some c1 else None)" for l
    using e lc by (cases m) simp
  have lk: "look ?m' t = look m t" for t
  proof (cases "HasPrefix t (prefix m)")
    case False
    then have "\<not> HasPrefix t (prefix m @ prefix c1)" by (auto simp: HasPrefix_iff)
    with False show ?thesis by (simp add: look_def)
  next
    case True
    then obtain r where t: "t = prefix m @ r" by (auto simp: HasPrefix_iff)
    have L: "look ?m' (prefix m @ r) =
        (if HasPrefix r (prefix c1) then lookup c1 (drop (length (prefix c1)) r) else None)"
      by (simp add: look_def lookup_edges_cong [of ?m' c1])
    have R: "look m (prefix m @ r) = lookup m r" by (rule look_prefix)
    show ?thesis
    proof (cases "r = []")
      case True
      with c1(1) show ?thesis unfolding t L R by (simp add: lf HasPrefix_def)
    next
      case False
      show ?thesis
      proof (cases "hd r = l1")
        case True
        with False show ?thesis unfolding t L R
          by (simp add: lookup_Cons G look_def)
      next
        case ne: False
        with c1 have "\<not> HasPrefix r (prefix c1)" by (auto dest: HasPrefix_hd)
        with False ne show ?thesis unfolding t L R
          by (simp add: lookup_Cons G)
      qed
    qed
  qed
  show thesis
    using mc w c1(1) lk by (intro that [of ?m']) (simp_all add: e lc)
qed

definition grows :: "bool \<Rightarrow> 'v node \<Rightarrow> 'v node \<Rightarrow> bool" where
  "grows isRoot n n' \<longleftrightarrow> (\<exists>e. prefix n' = prefix n @ e) \<and> (isRoot \<longrightarrow> prefix n' = prefix n)"

lemma grows_refl [simp]: "grows r n n"
  by (simp add: grows_def)

lemma grows_prefix: "prefix n' = prefix n \<Longrightarrow> grows r n n'"
  by (simp add: grows_def)

lemma mergeParent_spec:
  assumes wf: "wfn (Q @ prefix m) m"
  obtains m' where "mergeParent isRoot m = Some m'" "wfn (Q @ prefix m') m'" "grows isRoot m m'"
    "\<And>t. look m' t = look m t"
proof (cases "\<not> isRoot \<and> length (edges m) = 1 \<and> \<not> isLeaf m")
  case False
  then have "mergeParent isRoot m = Some m" by (auto simp: mergeParent_def)
  with wf show thesis by (intro that [of m]) simp_all
next
  case True
  then have lf: "leaf m = None" and one: "length (edges m) = 1" by (auto simp: isLeaf_def)
  from wf lf one obtain m' where m': "mergeChild m = Some m'" "wfn (Q @ prefix m') m'"
    "prefix m' = prefix m @ prefix (snd (hd (edges m)))" "\<And>t. look m' t = look m t"
    by (rule mergeChild_spec) blast
  from True m'(1) have "mergeParent isRoot m = Some m'" by (simp add: mergeParent_def)
  moreover have "grows isRoot m m'" using True m'(3) by (simp add: grows_def)
  ultimately show thesis using m'(2,4) by (intro that [of m']) simp_all
qed

lemma delEdge_prefix [simp]: "prefix (delEdge n l) = prefix n"
  by (simp add: delEdge_def Let_def)

lemma getEdge_no_edges: "edges c = [] \<Longrightarrow> getEdge c l = None"
  by (cases c) simp

lemma lookup_no_edges: "edges c = [] \<Longrightarrow> lookup c r = (if r = [] then leaf c else None)"
  by (cases "r = []") (simp_all add: lookup_Cons getEdge_no_edges)

lemma look_lift:
  assumes "prefix n1 = prefix n" "\<And>r. lookup n1 r = (if r = x then None else lookup n r)"
  shows "look n1 t = (if t = prefix n @ x then None else look n t)"
proof (cases "HasPrefix t (prefix n)")
  case True
  then obtain r where "t = prefix n @ r" by (auto simp: HasPrefix_iff)
  with assms show ?thesis by (simp add: look_def)
next
  case False
  then have "t \<noteq> prefix n @ x" by auto
  with False assms(1) show ?thesis by (simp add: look_def)
qed

lemma Delete_block_spec:
  assumes wf: "wfn (Q @ prefix n) n" and Some: "getEdge n l = Some c" and lfc: "leaf c = Some lf"
  obtains n' where "Delete_block isRoot n l c = Some n'" "wfn (Q @ prefix n') n'"
    "grows isRoot n n'" "\<And>t. look n' t = (if t = prefix n @ prefix c then None else look n t)"
proof -
  have so: "sortedEdges (edges n)" using wf by (rule wfn_sorted)
  note c = wfn_getEdge [OF wf Some]
  let ?c1 = "Node None (prefix c) (edges c)"
  have lkn: "lookup n r = look c r" if "r \<noteq> []" "hd r = l" for r
    using that Some by (simp add: lookup_Cons)
  have ne: "r \<noteq> prefix c" if "\<not> (r \<noteq> [] \<and> hd r = l)" for r
    using that c by auto
  have "\<exists>n1. Delete_block isRoot n l c = mergeParent isRoot n1 \<and> wfn (Q @ prefix n) n1 \<and>
          prefix n1 = prefix n \<and> (\<forall>r. lookup n1 r = (if r = prefix c then None else lookup n r))"
  proof (cases "edges c = []")
    case True
    have "lookup (delEdge n l) r = (if r = prefix c then None else lookup n r)" for r
    proof (cases "r \<noteq> [] \<and> hd r = l")
      case True
      with \<open>edges c = []\<close> lfc show ?thesis
        by (auto simp: lookup_delEdge [OF so] lkn look_def lookup_no_edges HasPrefix_iff)
    next
      case False
      with ne [of r] show ?thesis by (auto simp: lookup_delEdge [OF so])
    qed
    moreover have "Delete_block isRoot n l c = mergeParent isRoot (delEdge n l)"
      using True by (simp add: Delete_block_def)
    moreover have "wfn (Q @ prefix n) (delEdge n l)" using wf by (rule wfn_delEdge)
    ultimately show ?thesis by (intro exI [of _ "delEdge n l"]) simp
  next
    case False
    have w1: "wfn ((Q @ prefix n) @ prefix ?c1) ?c1"
      using c(3) wfn_iff [of "Q @ prefix n @ prefix c" c] by simp
    have lk1: "look ?c1 t = (if t = prefix c then None else look c t)" for t
    proof (cases "HasPrefix t (prefix c)")
      case True
      then obtain r where "t = prefix c @ r" by (auto simp: HasPrefix_iff)
      then show ?thesis by (simp add: look_def lookup_Node)
    next
      case False
      then have "t \<noteq> prefix c" by auto
      with False show ?thesis by (simp add: look_def)
    qed
    have "\<exists>c2. (if length (edges ?c1) = 1 then mergeChild ?c1 else Some ?c1) = Some c2 \<and>
            wfn (Q @ prefix n @ prefix c2) c2 \<and> prefix c2 \<noteq> [] \<and> hd (prefix c2) = l \<and>
            (\<forall>t. look c2 t = look ?c1 t)"
    proof (cases "length (edges ?c1) = 1")
      case True
      have lf1: "leaf ?c1 = None" by simp
      from w1 lf1 True obtain c2 where c2: "mergeChild ?c1 = Some c2"
        "wfn ((Q @ prefix n) @ prefix c2) c2"
        "prefix c2 = prefix ?c1 @ prefix (snd (hd (edges ?c1)))" "\<And>t. look c2 t = look ?c1 t"
        by (rule mergeChild_spec) blast
      with c True show ?thesis by (intro exI [of _ c2]) simp
    next
      case False
      with c w1 show ?thesis by (intro exI [of _ ?c1]) simp
    qed
    then obtain c2 where c2: "(if length (edges ?c1) = 1 then mergeChild ?c1 else Some ?c1) = Some c2"
      "wfn (Q @ prefix n @ prefix c2) c2" "prefix c2 \<noteq> []" "hd (prefix c2) = l"
      "\<And>t. look c2 t = look ?c1 t" by blast
    have "Delete_block isRoot n l c = mergeParent isRoot (setEdgeNode n l c2)"
      using False c2(1) by (simp add: Delete_block_def)
    moreover have "wfn (Q @ prefix n) (setEdgeNode n l c2)"
      using wf Some c2(3,4) c2(2) by (intro wfn_setEdgeNode) simp_all
    moreover have "lookup (setEdgeNode n l c2) r = (if r = prefix c then None else lookup n r)" for r
    proof (cases "r \<noteq> [] \<and> hd r = l")
      case True
      then show ?thesis
        by (simp add: lookup_setEdgeNode [OF so Some] lkn c2(5) lk1)
    next
      case False
      with ne [of r] show ?thesis by (auto simp: lookup_setEdgeNode [OF so Some])
    qed
    ultimately show ?thesis by (intro exI [of _ "setEdgeNode n l c2"]) simp
  qed
  then obtain n1 where n1: "Delete_block isRoot n l c = mergeParent isRoot n1"
    "wfn (Q @ prefix n) n1" "prefix n1 = prefix n"
    "\<And>r. lookup n1 r = (if r = prefix c then None else lookup n r)" by blast
  from n1(2,3) have "wfn (Q @ prefix n1) n1" by simp
  then obtain n' where n': "mergeParent isRoot n1 = Some n'" "wfn (Q @ prefix n') n'"
    "grows isRoot n1 n'" "\<And>t. look n' t = look n1 t"
    by (rule mergeParent_spec [where isRoot = isRoot]) blast
  have "grows isRoot n n'" using n'(3) n1(3) by (simp add: grows_def)
  moreover have "look n' t = (if t = prefix n @ prefix c then None else look n t)" for t
    unfolding n'(4) using n1(3,4) by (rule look_lift)
  ultimately show thesis
    using n'(1,2) n1(1) by (intro that [of n']) simp_all
qed

definition deleteSpec ::
  "bool \<Rightarrow> string \<Rightarrow> 'v node \<Rightarrow> string \<Rightarrow> ('v node \<times> 'v) outcome \<Rightarrow> bool"
where
  "deleteSpec isRoot Q n s r \<longleftrightarrow>
     (case r of
        Panic \<Rightarrow> False
      | Break \<Rightarrow> lookup n s = None
      | Done (n', x) \<Rightarrow>
          (\<exists>l. lookup n s = Some l \<and> x = val l) \<and> wfn (Q @ prefix n') n' \<and>
          grows isRoot n n' \<and>
          (\<forall>t. look n' t = (if t = prefix n @ s then None else look n t)))"

lemma Delete_loop_missing:
  "getEdge n (hd s) = None \<Longrightarrow> Delete_loop isRoot n s = Break"
  by (subst Delete_loop.simps) simp

lemma Delete_loop_mismatch:
  "getEdge n (hd s) = Some c \<Longrightarrow> \<not> HasPrefix s (prefix c) \<Longrightarrow> Delete_loop isRoot n s = Break"
  by (subst Delete_loop.simps) simp

lemma Delete_loop_here:
  "getEdge n (hd s) = Some c \<Longrightarrow> s = prefix c \<Longrightarrow>
   Delete_loop isRoot n s =
     (case leaf c of
        None \<Rightarrow> Break
      | Some l \<Rightarrow> (case Delete_block isRoot n (hd s) c of
                     None \<Rightarrow> Panic | Some n' \<Rightarrow> Done (n', val l)))"
  by (subst Delete_loop.simps) simp

lemma Delete_loop_descend:
  "getEdge n (hd s) = Some c \<Longrightarrow> s = prefix c @ r \<Longrightarrow> r \<noteq> [] \<Longrightarrow>
   Delete_loop isRoot n s =
     (case Delete_loop False c r of
        Panic \<Rightarrow> Panic
      | Break \<Rightarrow> Break
      | Done (c', x) \<Rightarrow> Done (setEdgeNode n (hd s) c', x))"
  by (subst Delete_loop.simps) simp

lemma deleteSpec_here:
  assumes wf: "wfn (Q @ prefix n) n" and s: "s \<noteq> []" and Some: "getEdge n (hd s) = Some c"
    and sc: "s = prefix c"
  shows "deleteSpec isRoot Q n s (Delete_loop isRoot n s)"
proof -
  have ln: "lookup n s = leaf c"
    using s Some by (simp add: lookup_Cons) (simp add: sc look_def)
  show ?thesis
  proof (cases "leaf c")
    case None
    with ln show ?thesis
      by (simp add: deleteSpec_def Delete_loop_here [OF Some sc])
  next
    case (Some lf)
    from wf \<open>getEdge n (hd s) = Some c\<close> Some obtain n' where
      n': "Delete_block isRoot n (hd s) c = Some n'" "wfn (Q @ prefix n') n'"
        "grows isRoot n n'" "\<And>t. look n' t = (if t = prefix n @ prefix c then None else look n t)"
      by (rule Delete_block_spec [where isRoot = isRoot]) blast
    have "Delete_loop isRoot n s = Done (n', val lf)"
      using Some n'(1) by (simp add: Delete_loop_here [OF \<open>getEdge n (hd s) = Some c\<close> sc])
    with ln Some n'(2,3,4) show ?thesis
      by (simp add: deleteSpec_def sc [symmetric])
  qed
qed

lemma deleteSpec_descend:
  assumes wf: "wfn (Q @ prefix n) n" and s: "s \<noteq> []" and Some: "getEdge n (hd s) = Some c"
    and sc: "s = prefix c @ r" and r: "r \<noteq> []"
    and IH: "deleteSpec False (Q @ prefix n) c r (Delete_loop False c r)"
  shows "deleteSpec isRoot Q n s (Delete_loop isRoot n s)"
proof -
  have so: "sortedEdges (edges n)" using wf by (rule wfn_sorted)
  note c = wfn_getEdge [OF wf Some]
  have ln: "lookup n s = lookup c r"
    using s Some by (simp add: lookup_Cons) (simp add: sc)
  show ?thesis
  proof (cases "Delete_loop False c r")
    case Panic
    with IH show ?thesis by (simp add: deleteSpec_def)
  next
    case Break
    with IH ln show ?thesis
      by (simp add: deleteSpec_def Delete_loop_descend [OF Some sc r])
  next
    case (Done res)
    obtain c' x where res: "res = (c', x)" by (cases res)
    from IH Done res have c': "\<exists>l. lookup c r = Some l \<and> x = val l"
      "wfn ((Q @ prefix n) @ prefix c') c'" "grows False c c'"
      "\<And>t. look c' t = (if t = prefix c @ r then None else look c t)"
      by (auto simp: deleteSpec_def)
    from c'(3) c have pc: "prefix c' \<noteq> []" "hd (prefix c') = hd s"
      by (auto simp: grows_def)
    let ?n' = "setEdgeNode n (hd s) c'"
    have D: "Delete_loop isRoot n s = Done (?n', x)"
      using Done res by (simp add: Delete_loop_descend [OF Some sc r])
    have w: "wfn (Q @ prefix ?n') ?n'"
      using wf Some pc c'(2) by (simp add: wfn_setEdgeNode)
    have c4: "look c' t = (if t = s then None else look c t)" for t
      using c'(4) [of t] by (simp add: sc)
    have lk: "lookup ?n' t = (if t = s then None else lookup n t)" for t
    proof (cases "t \<noteq> [] \<and> hd t = hd s")
      case True
      then have "lookup n t = look c t" using Some by (simp add: lookup_Cons)
      with True show ?thesis
        by (simp add: lookup_setEdgeNode [OF so Some] c4)
    next
      case False
      with s have "t \<noteq> s" by auto
      with False show ?thesis by (auto simp: lookup_setEdgeNode [OF so Some])
    qed
    have "look ?n' t = (if t = prefix n @ s then None else look n t)" for t
      using lk by (intro look_lift) simp_all
    with D w c'(1) ln show ?thesis
      by (simp add: deleteSpec_def grows_prefix)
  qed
qed

lemma Delete_loop_spec:
  "wfn (Q @ prefix n) n \<Longrightarrow> s \<noteq> [] \<Longrightarrow> deleteSpec isRoot Q n s (Delete_loop isRoot n s)"
proof (induction n s arbitrary: Q isRoot rule: lookup.induct)
  case (1 n s)
  note wf = \<open>wfn (Q @ prefix n) n\<close> and s = \<open>s \<noteq> []\<close>
  show ?case
  proof (cases "getEdge n (hd s)")
    case None
    with s show ?thesis
      by (simp add: deleteSpec_def Delete_loop_missing lookup_Cons)
  next
    case (Some c)
    note c = wfn_getEdge [OF wf Some]
    show ?thesis
    proof (cases "HasPrefix s (prefix c)")
      case False
      with s Some show ?thesis
        by (simp add: deleteSpec_def Delete_loop_mismatch lookup_Cons look_def)
    next
      case True
      then obtain r where r: "s = prefix c @ r" by (auto simp: HasPrefix_iff)
      show ?thesis
      proof (cases "r = []")
        case True
        with r have "s = prefix c" by simp
        with wf s Some show ?thesis by (rule deleteSpec_here)
      next
        case False
        have "wfn ((Q @ prefix n) @ prefix c) c" using c(3) by simp
        moreover have "drop (length (prefix c)) s \<noteq> []" using r False by simp
        ultimately have "deleteSpec False (Q @ prefix n) c (drop (length (prefix c)) s)
            (Delete_loop False c (drop (length (prefix c)) s))"
          using s Some True by (intro "1.IH")
        then have "deleteSpec False (Q @ prefix n) c r (Delete_loop False c r)"
          by (simp add: r)
        with wf s Some r False show ?thesis by (rule deleteSpec_descend)
      qed
    qed
  qed
qed

subsection \<open>The leaves of a subtree in pre-order\<close>

fun leaves :: "'v node \<Rightarrow> 'v leafNode list" where
  "leaves (Node lf p es) =
     (case lf of None \<Rightarrow> [] | Some l \<Rightarrow> [l]) @ concat (map (\<lambda>e. leaves (snd e)) es)"

lemma leaves_eq:
  "leaves n = (case leaf n of None \<Rightarrow> [] | Some l \<Rightarrow> [l]) @ concat (map (\<lambda>e. leaves (snd e)) (edges n))"
  by (cases n) simp

lemma set_leaves:
  "l \<in> set (leaves n) \<longleftrightarrow> leaf n = Some l \<or> (\<exists>e \<in> set (edges n). l \<in> set (leaves (snd e)))"
  by (cases n) (auto split: option.splits)

lemma leaves_key:
  "wfn P n \<Longrightarrow> l \<in> set (leaves n) \<Longrightarrow> \<exists>s. key l = P @ s"
proof (induction n arbitrary: P rule: leaves.induct)
  case (1 lf p es)
  from "1.prems"(2) consider (here) "lf = Some l" | (below) e where "e \<in> set es" "l \<in> set (leaves (snd e))"
    by (auto split: option.splits)
  then show ?case
  proof cases
    case here
    with "1.prems"(1) show ?thesis by simp
  next
    case below
    with "1.prems"(1) have "wfn (P @ prefix (snd e)) (snd e)" by simp
    with below "1.IH" [of e "P @ prefix (snd e)"] show ?thesis by auto
  qed
qed

lemma lookup_leaves:
  "wfn P n \<Longrightarrow> lookup n s = Some l \<Longrightarrow> l \<in> set (leaves n) \<and> key l = P @ s"
proof (induction n s arbitrary: P rule: lookup.induct)
  case (1 n s)
  note wf = \<open>wfn P n\<close>
  show ?case
  proof (cases "s = []")
    case True
    with "1.prems" wfn_iff [of P n] show ?thesis by (simp add: set_leaves [of l n])
  next
    case False
    with "1.prems"(2) obtain c where c: "getEdge n (hd s) = Some c" and lk: "look c s = Some l"
      by (auto simp: lookup_Cons split: option.splits)
    from lk have hp: "HasPrefix s (prefix c)" and lc: "lookup c (drop (length (prefix c)) s) = Some l"
      by (auto simp: look_def split: if_splits)
    note wc = wfn_getEdge [OF wf c]
    from "1.IH" [OF False c hp wc(3) lc]
    have "l \<in> set (leaves c)" "key l = (P @ prefix c) @ drop (length (prefix c)) s" by auto
    moreover have "(hd s, c) \<in> set (edges n)"
      using c wf by (auto simp: getEdge_map_of [OF wfn_sorted [OF wf]] dest: map_of_SomeD)
    moreover have "prefix c @ drop (length (prefix c)) s = s"
      using hp by (auto simp: HasPrefix_iff)
    ultimately show ?thesis by (force simp: set_leaves [of l n])
  qed
qed

lemma sortedEdges_map_of:
  "sortedEdges es \<Longrightarrow> (l, c) \<in> set es \<Longrightarrow> map_of es l = Some c"
proof (rule map_of_is_SomeI)
  assume "sortedEdges es"
  then have "distinct (map fst es)"
    unfolding sortedEdges_def by (rule strict_sorted_iff [THEN iffD1, THEN conjunct2, rotated -1, of "map fst es"] | simp add: strict_sorted_iff)+
  then show "distinct (map fst es)" .
qed

lemma leaves_lookup:
  "wfn P n \<Longrightarrow> l \<in> set (leaves n) \<Longrightarrow> key l = P @ s \<Longrightarrow> lookup n s = Some l"
proof (induction n arbitrary: P s rule: leaves.induct)
  case (1 lf p es)
  let ?n = "Node lf p es"
  note wf = \<open>wfn P ?n\<close>
  from "1.prems"(2) consider (here) "lf = Some l" | (below) e where "e \<in> set es" "l \<in> set (leaves (snd e))"
    by (auto split: option.splits)
  then show ?case
  proof cases
    case here
    with wf "1.prems"(3) show ?thesis by simp
  next
    case below
    with wf have e: "prefix (snd e) \<noteq> []" "hd (prefix (snd e)) = fst e"
      "wfn (P @ prefix (snd e)) (snd e)" by auto
    from leaves_key [OF e(3) below(2)] obtain r where r: "key l = (P @ prefix (snd e)) @ r" by blast
    with "1.prems"(3) have s: "s = prefix (snd e) @ r" by simp
    from "1.IH" [OF below(1) e(3) below(2) r] have "lookup (snd e) r = Some l" .
    moreover have "getEdge ?n (fst e) = Some (snd e)"
      using wf below(1) by (simp add: getEdge_Node_sorted sortedEdges_map_of)
    ultimately show ?thesis using e by (simp add: lookup_Cons s)
  qed
qed

lemma append_less_append [simp]: "(p @ a :: string) < p @ b \<longleftrightarrow> a < b"
  by (induction p) auto

lemma less_append_nonempty: "a \<noteq> [] \<Longrightarrow> (p :: string) < p @ a"
  using append_less_append [of p "[]" a] by (cases a) auto

lemma hd_less_append: "a \<noteq> [] \<Longrightarrow> b \<noteq> [] \<Longrightarrow> hd a < hd b \<Longrightarrow> (a @ r :: string) < b @ r'"
  by (cases a; cases b) auto

lemma leaves_child_key:
  assumes "wfn P n" "e \<in> set (edges n)" "l \<in> set (leaves (snd e))"
  shows "\<exists>r. key l = P @ prefix (snd e) @ r"
proof -
  from assms(1,2) wfn_iff [of P n] have "wfn (P @ prefix (snd e)) (snd e)" by simp
  from leaves_key [OF this assms(3)] show ?thesis by simp
qed

lemma sorted_children:
  assumes "sortedEdges es"
    and "\<forall>e \<in> set es. prefix (snd e) \<noteq> [] \<and> hd (prefix (snd e)) = fst e \<and>
           wfn (P @ prefix (snd e)) (snd e) \<and> sorted_wrt (<) (map key (leaves (snd e)))"
  shows "sorted_wrt (<) (map key (concat (map (\<lambda>e. leaves (snd e)) es)))"
  using assms
proof (induction es)
  case Nil
  then show ?case by simp
next
  case (Cons e es)
  have IH: "sorted_wrt (<) (map key (concat (map (\<lambda>e. leaves (snd e)) es)))"
    using Cons by (simp add: sortedEdges_Cons)
  have cross: "key x < key y"
    if "x \<in> set (leaves (snd e))" "e' \<in> set es" "y \<in> set (leaves (snd e'))" for x y e'
  proof -
    from Cons.prems(2) have we: "wfn (P @ prefix (snd e)) (snd e)" "prefix (snd e) \<noteq> []"
      "hd (prefix (snd e)) = fst e" by auto
    from Cons.prems(2) that(2) have we': "wfn (P @ prefix (snd e')) (snd e')" "prefix (snd e') \<noteq> []"
      "hd (prefix (snd e')) = fst e'" by auto
    from Cons.prems(1) that(2) have lt: "fst e < fst e'" by (simp add: sortedEdges_Cons)
    from leaves_key [OF we(1) that(1)] obtain r where r: "key x = (P @ prefix (snd e)) @ r" by blast
    from leaves_key [OF we'(1) that(3)] obtain r' where r': "key y = (P @ prefix (snd e')) @ r'" by blast
    have "prefix (snd e) @ r < prefix (snd e') @ r'"
      using we(2,3) we'(2,3) lt by (intro hd_less_append) simp_all
    then show ?thesis by (simp add: r r')
  qed
  show ?case
    using Cons.prems(2) IH cross by (auto simp: sorted_wrt_append)
qed

lemma leaves_sorted:
  "wfn P n \<Longrightarrow> sorted_wrt (<) (map key (leaves n))"
proof (induction n arbitrary: P rule: leaves.induct)
  case (1 lf p es)
  have ch: "\<forall>e \<in> set es. prefix (snd e) \<noteq> [] \<and> hd (prefix (snd e)) = fst e \<and>
           wfn (P @ prefix (snd e)) (snd e) \<and> sorted_wrt (<) (map key (leaves (snd e)))"
    using "1.prems" "1.IH" by auto
  from "1.prems" have "sortedEdges es" by simp
  from sorted_children [OF this ch]
  have s: "sorted_wrt (<) (map key (concat (map (\<lambda>e. leaves (snd e)) es)))" .
  show ?case
  proof (cases lf)
    case None
    with s show ?thesis by simp
  next
    case (Some l)
    have "key l < key y" if "e \<in> set es" "y \<in> set (leaves (snd e))" for e y
    proof -
      from "1.prems" Some have k: "key l = P" by simp
      from "1.prems" that(1) have "prefix (snd e) \<noteq> []" by simp
      moreover from leaves_child_key [OF "1.prems", of e y] that
      obtain r where "key y = P @ prefix (snd e) @ r" by auto
      ultimately show ?thesis using k less_append_nonempty [of "prefix (snd e) @ r" P] by simp
    qed
    with s Some show ?thesis by auto
  qed
qed

lemma leaves_distinct: "wfn P n \<Longrightarrow> distinct (map key (leaves n))"
  using leaves_sorted [of P n] by (simp add: strict_sorted_iff)

subsection \<open>The walk visits the leaves in order\<close>

fun visit :: "('v, 's) WalkFn \<Rightarrow> 'v leafNode list \<Rightarrow> 's \<Rightarrow> bool \<times> 's" where
  "visit fn [] st = (False, st)"
| "visit fn (l # ls) st =
     (case fn (key l) (val l) st of (stop, st1) \<Rightarrow> if stop then (True, st1) else visit fn ls st1)"

lemma visit_append:
  "visit fn (xs @ ys) st =
     (case visit fn xs st of (stop, st1) \<Rightarrow> if stop then (True, st1) else visit fn ys st1)"
  by (induction xs arbitrary: st) (auto split: prod.splits)

lemma visit_stop: "visit fn ls st = (stop, st1) \<Longrightarrow> stop \<Longrightarrow> visit fn ls st = (True, st1)"
  by simp

lemma recursiveWalk_loop_leaves:
  assumes ch: "\<And>e st. e \<in> set (edges n) \<Longrightarrow>
                recursiveWalk (snd e) fn st = Some (visit fn (leaves (snd e)) st)"
  shows "i \<le> length (edges n) \<Longrightarrow>
         recursiveWalk_loop n fn i (length (edges n)) st =
           Some (visit fn (concat (map (\<lambda>e. leaves (snd e)) (drop i (edges n)))) st)"
proof (induction "length (edges n) - i" arbitrary: i st)
  case 0
  then show ?case by (subst recursiveWalk_loop.simps) simp
next
  case (Suc k)
  then have lt: "i < length (edges n)" by simp
  let ?e = "edges n ! i"
  have e: "?e \<in> set (edges n)" using lt by simp
  have dr: "drop i (edges n) = ?e # drop (Suc i) (edges n)"
    using lt by (simp add: Cons_nth_drop_Suc)
  obtain stop st1 where v: "visit fn (leaves (snd ?e)) st = (stop, st1)" by force
  have IH: "recursiveWalk_loop n fn (Suc i) (length (edges n)) st1 =
           Some (visit fn (concat (map (\<lambda>e. leaves (snd e)) (drop (Suc i) (edges n)))) st1)"
    using Suc.hyps(2) lt by (intro Suc.hyps(1)) simp_all
  have ne: "edges n \<noteq> []" using lt by auto
  show ?case
    using lt v IH ne
    by (subst recursiveWalk_loop.simps) (simp add: ch [OF e] dr visit_append)
qed

lemma recursiveWalk_leaves:
  "recursiveWalk n fn st = Some (visit fn (leaves n) st)"
proof (induction n arbitrary: st rule: leaves.induct)
  case (1 lf p es)
  let ?n = "Node lf p es"
  have ch: "\<And>e st. e \<in> set (edges ?n) \<Longrightarrow>
                recursiveWalk (snd e) fn st = Some (visit fn (leaves (snd e)) st)"
    using "1.IH" by simp
  have loop: "recursiveWalk_loop ?n fn 0 (length (edges ?n)) st =
           Some (visit fn (concat (map (\<lambda>e. leaves (snd e)) es)) st)" for st
    using recursiveWalk_loop_leaves [of ?n fn 0 st, OF ch] by simp
  show ?case
  proof (cases lf)
    case None
    with loop show ?thesis
      by (subst recursiveWalk.simps) simp
  next
    case (Some l)
    with loop show ?thesis
      by (subst recursiveWalk.simps) (auto split: prod.splits)
  qed
qed

subsection \<open>Invariant of the tree\<close>

definition wf :: "'v tree \<Rightarrow> bool" where
  "wf t \<longleftrightarrow> wfn [] (root t) \<and> prefix (root t) = [] \<and> tsize t = int (length (leaves (root t)))"

lemma Get_lookup:
  "Get t k = (case lookup (root t) k of Some l \<Rightarrow> (val l, True) | None \<Rightarrow> (0, False))"
  by (simp add: Get_def Get_loop_lookup split: option.splits)

lemma Get_found: "snd (Get t k) \<longleftrightarrow> lookup (root t) k \<noteq> None"
  by (simp add: Get_lookup split: option.splits)

definition stored :: "'v node \<Rightarrow> string set" where
  "stored n = {k. lookup n k \<noteq> None}"

lemma stored_iff: "k \<in> stored n \<longleftrightarrow> lookup n k \<noteq> None"
  by (simp add: stored_def)

lemma stored_keys: "wfn [] n \<Longrightarrow> stored n = key ` set (leaves n)"
proof (intro set_eqI iffI)
  fix k
  assume wf: "wfn [] n" and "k \<in> stored n"
  then obtain l where "lookup n k = Some l" by (auto simp: stored_def)
  from lookup_leaves [OF wf this] show "k \<in> key ` set (leaves n)" by auto
next
  fix k
  assume wf: "wfn [] n" and "k \<in> key ` set (leaves n)"
  then obtain l where "l \<in> set (leaves n)" "key l = [] @ k" by auto
  from leaves_lookup [OF wf this] show "k \<in> stored n" by (simp add: stored_def)
qed

lemma stored_finite: "wfn [] n \<Longrightarrow> finite (stored n)"
  by (simp add: stored_keys)

lemma length_leaves_card: "wfn [] n \<Longrightarrow> length (leaves n) = card (stored n)"
  using distinct_card [OF leaves_distinct [of "[]" n]] by (simp add: stored_keys)

lemma wf_size: "wf t \<Longrightarrow> tsize t = int (card (stored (root t)))"
  by (simp add: wf_def length_leaves_card)

lemma wfI:
  "wfn [] (root t) \<Longrightarrow> prefix (root t) = [] \<Longrightarrow>
   tsize t = int (card (stored (root t))) \<Longrightarrow> wf t"
  by (simp add: wf_def length_leaves_card)

lemma wf_New: "wf New"
  by (simp add: wf_def New_def sortedEdges_def)

lemma look_root: "prefix n = [] \<Longrightarrow> look n s = lookup n s"
  by (simp add: look_def)

lemma Insert_spec:
  assumes "wf t"
  obtains t' where
    "Insert t k v = Some (t', (case lookup (root t) k of None \<Rightarrow> 0 | Some l \<Rightarrow> val l),
                          lookup (root t) k \<noteq> None)"
    "wf t'"
    "\<And>k'. lookup (root t') k' = (if k' = k then Some (LeafNode k v) else lookup (root t) k')"
    "tsize t' = (if lookup (root t) k = None then tsize t + 1 else tsize t)"
proof -
  from assms have w: "wfn [] (root t)" and p: "prefix (root t) = []" by (auto simp: wf_def)
  from Insert_loop_spec [OF w, of k v "tsize t"] obtain n' where n':
    "Insert_loop (root t) k k v (tsize t) =
       Some (n', (if lookup (root t) k = None then tsize t + 1 else tsize t),
             (case lookup (root t) k of None \<Rightarrow> 0 | Some l \<Rightarrow> val l), lookup (root t) k \<noteq> None)"
    "prefix n' = prefix (root t)" "wfn [] n'"
    "\<And>s'. lookup n' s' = (if s' = k then Some (LeafNode k v) else lookup (root t) s')"
    by (auto simp: insertSpec_def)
  let ?sz = "if lookup (root t) k = None then tsize t + 1 else tsize t"
  let ?t' = "\<lparr>root = n', tsize = ?sz\<rparr>"
  have I: "Insert t k v = Some (?t', (case lookup (root t) k of None \<Rightarrow> 0 | Some l \<Rightarrow> val l),
                          lookup (root t) k \<noteq> None)"
    by (simp add: Insert_def n'(1))
  have S: "stored n' = insert k (stored (root t))"
    by (auto simp: stored_def n'(4))
  have "int (card (stored n')) = ?sz"
  proof (cases "lookup (root t) k = None")
    case True
    then have "k \<notin> stored (root t)" by (simp add: stored_def)
    with True stored_finite [OF w] wf_size [OF assms] show ?thesis
      by (simp add: S)
  next
    case False
    then have "k \<in> stored (root t)" by (simp add: stored_def)
    with False wf_size [OF assms] show ?thesis
      by (simp add: S insert_absorb)
  qed
  then have "wf ?t'" using n'(2,3) p by (intro wfI) simp_all
  with I n'(4) show thesis by (intro that [of ?t']) simp_all
qed

lemma Delete_spec:
  assumes "wf t"
  obtains (absent) "lookup (root t) k = None" "Delete t k = Some (t, 0, False)"
  | (present) l t' where "lookup (root t) k = Some l" "Delete t k = Some (t', val l, True)"
      "wf t'" "\<And>k'. lookup (root t') k' = (if k' = k then None else lookup (root t) k')"
      "tsize t' = tsize t - 1"
proof -
  from assms have w: "wfn [] (root t)" and p: "prefix (root t) = []" by (auto simp: wf_def)
  have fin: "finite (stored (root t))" using w by (rule stored_finite)
  have sz: "tsize t = int (card (stored (root t)))" using assms by (rule wf_size)
  have fin_wf: "wf \<lparr>root = n', tsize = tsize t - 1\<rparr>"
    if "wfn [] n'" "prefix n' = []" "lookup (root t) k \<noteq> None"
      "\<And>k'. lookup n' k' = (if k' = k then None else lookup (root t) k')" for n'
  proof -
    have S: "stored n' = stored (root t) - {k}"
      by (auto simp: stored_def that(4))
    have k: "k \<in> stored (root t)" using that(3) by (simp add: stored_def)
    then have "card (stored (root t)) > 0" using fin by (auto simp: card_gt_0_iff)
    then have "int (card (stored n')) = tsize t - 1"
      using fin sz k unfolding S by (simp add: card_Diff_singleton of_nat_diff Suc_le_eq)
    then show ?thesis using that(1,2) by (intro wfI) simp_all
  qed
  show thesis
  proof (cases "k = []")
    case True
    show ?thesis
    proof (cases "leaf (root t)")
      case None
      with True show ?thesis by (intro absent) (simp_all add: Delete_def)
    next
      case (Some l)
      let ?n' = "Node None (prefix (root t)) (edges (root t))"
      have "wfn [] ?n'" using w wfn_iff [of "[]" "root t"] by simp
      moreover have lk: "lookup ?n' k' = (if k' = k then None else lookup (root t) k')" for k'
        by (simp add: lookup_Node True)
      ultimately have "wf \<lparr>root = ?n', tsize = tsize t - 1\<rparr>"
        using p Some True by (intro fin_wf) simp_all
      with Some True lk show ?thesis
        by (intro present [of l "\<lparr>root = ?n', tsize = tsize t - 1\<rparr>"]) (simp_all add: Delete_def)
    qed
  next
    case False
    from w p have "wfn ([] @ prefix (root t)) (root t)" by simp
    from Delete_loop_spec [OF this False, of True]
    have D: "deleteSpec True [] (root t) k (Delete_loop True (root t) k)" .
    show ?thesis
    proof (cases "Delete_loop True (root t) k")
      case Panic
      with D show ?thesis by (simp add: deleteSpec_def)
    next
      case Break
      with D False show ?thesis by (intro absent) (simp_all add: deleteSpec_def Delete_def)
    next
      case (Done res)
      obtain n' x where res: "res = (n', x)" by (cases res)
      from D Done res obtain l where l: "lookup (root t) k = Some l" "x = val l"
        and n': "wfn ([] @ prefix n') n'" "grows True (root t) n'"
          "\<And>s. look n' s = (if s = prefix (root t) @ k then None else look (root t) s)"
        by (auto simp: deleteSpec_def)
      from n'(2) p have pn: "prefix n' = []" by (simp add: grows_def)
      have lk: "lookup n' k' = (if k' = k then None else lookup (root t) k')" for k'
        using n'(3) [of k'] by (simp add: look_root pn p)
      have "wf \<lparr>root = n', tsize = tsize t - 1\<rparr>"
        using n'(1) pn l(1) lk by (intro fin_wf) simp_all
      with l lk Done res False show ?thesis
        by (intro present [of l "\<lparr>root = n', tsize = tsize t - 1\<rparr>"]) (simp_all add: Delete_def)
    qed
  qed
qed

lemma leaves_stored: "wfn P n \<Longrightarrow> key ` set (leaves n) = (@) P ` stored n"
proof (intro set_eqI iffI)
  fix k
  assume wf: "wfn P n" and "k \<in> key ` set (leaves n)"
  then obtain l where l: "l \<in> set (leaves n)" "k = key l" by auto
  from leaves_key [OF wf l(1)] obtain s where s: "key l = P @ s" by blast
  from leaves_lookup [OF wf l(1) s] have "s \<in> stored n" by (simp add: stored_def)
  with l s show "k \<in> (@) P ` stored n" by auto
next
  fix k
  assume wf: "wfn P n" and "k \<in> (@) P ` stored n"
  then obtain s l where "k = P @ s" "lookup n s = Some l" by (auto simp: stored_def)
  with lookup_leaves [OF wf this(2)] show "k \<in> key ` set (leaves n)" by force
qed

lemma length_leaves: "wfn P n \<Longrightarrow> length (leaves n) = card (stored n)"
proof -
  assume wf: "wfn P n"
  have "length (leaves n) = card (key ` set (leaves n))"
    using distinct_card [OF leaves_distinct [OF wf]] by simp
  also have "\<dots> = card ((@) P ` stored n)" by (simp add: leaves_stored [OF wf])
  also have "\<dots> = card (stored n)" by (rule card_image) (simp add: inj_on_def)
  finally show ?thesis .
qed

lemma visit_count: "visit (\<lambda>k v n. (False, n + 1)) ls c = (False, c + int (length ls))"
  by (induction ls arbitrary: c) auto

lemma subTreeSize_leaves: "subTreeSize n = Some (int (length (leaves n)))"
  by (simp add: subTreeSize_def recursiveWalk_leaves visit_count)

definition under :: "'v node \<Rightarrow> string \<Rightarrow> string set" where
  "under n pfx = {k. lookup n k \<noteq> None \<and> HasPrefix k pfx}"

lemma under_Nil: "under n [] = stored n"
  by (simp add: under_def stored_def)

lemma HasPrefix_trans: "HasPrefix a b \<Longrightarrow> HasPrefix b c \<Longrightarrow> HasPrefix a c"
  by (auto simp: HasPrefix_iff)

lemma under_edge:
  assumes "pfx \<noteq> []" "getEdge n (hd pfx) = Some c"
  shows "under n pfx = {k. look c k \<noteq> None \<and> HasPrefix k pfx}"
proof -
  have "lookup n k = look c k" if "HasPrefix k pfx" for k
  proof -
    from that assms(1) have "k \<noteq> []" "hd k = hd pfx" by (auto simp: HasPrefix_iff)
    with assms(2) show ?thesis by (simp add: lookup_Cons)
  qed
  then show ?thesis by (auto simp: under_def)
qed

lemma under_here:
  assumes "pfx \<noteq> []" "getEdge n (hd pfx) = Some c" "HasPrefix (prefix c) pfx"
  shows "under n pfx = (@) (prefix c) ` stored c"
proof -
  have "look c k \<noteq> None \<and> HasPrefix k pfx \<longleftrightarrow> k \<in> (@) (prefix c) ` stored c" for k
  proof (cases "HasPrefix k (prefix c)")
    case True
    then obtain r where "k = prefix c @ r" by (auto simp: HasPrefix_iff)
    moreover from True assms(3) have "HasPrefix k pfx" by (rule HasPrefix_trans)
    ultimately show ?thesis by (auto simp: stored_def)
  next
    case False
    then show ?thesis by (auto simp: look_def stored_def)
  qed
  then show ?thesis unfolding under_edge [OF assms(1,2)] by blast
qed

lemma under_descend:
  assumes "pfx = prefix c @ r" "pfx \<noteq> []" "getEdge n (hd pfx) = Some c"
  shows "under n pfx = (@) (prefix c) ` under c r"
proof -
  have "look c k \<noteq> None \<and> HasPrefix k pfx \<longleftrightarrow> k \<in> (@) (prefix c) ` under c r" for k
  proof (cases "HasPrefix k (prefix c)")
    case True
    then obtain s where "k = prefix c @ s" by (auto simp: HasPrefix_iff)
    then show ?thesis by (auto simp: under_def assms(1))
  next
    case False
    then show ?thesis by (auto simp: look_def under_def)
  qed
  then show ?thesis unfolding under_edge [OF assms(2,3)] by blast
qed

lemma card_under_image: "card ((@) p ` S) = card S"
  by (rule card_image) (simp add: inj_on_def)

definition deletePrefixSpec ::
  "bool \<Rightarrow> string \<Rightarrow> 'v node \<Rightarrow> string \<Rightarrow> ('v node \<times> int) outcome \<Rightarrow> bool"
where
  "deletePrefixSpec isRoot Q n pfx r \<longleftrightarrow>
     (case r of
        Panic \<Rightarrow> False
      | Break \<Rightarrow> under n pfx = {}
      | Done (n', cnt) \<Rightarrow>
          cnt = int (card (under n pfx)) \<and> wfn (Q @ prefix n') n' \<and> grows isRoot n n' \<and>
          (\<forall>t. look n' t = (if HasPrefix t (prefix n @ pfx) then None else look n t)))"

lemma deletePrefix_loop_missing:
  "getEdge n (hd pfx) = None \<Longrightarrow> deletePrefix_loop isRoot n pfx = Break"
  by (subst deletePrefix_loop.simps) simp

lemma deletePrefix_loop_mismatch:
  "getEdge n (hd pfx) = Some c \<Longrightarrow> \<not> HasPrefix (prefix c) pfx \<Longrightarrow> \<not> HasPrefix pfx (prefix c) \<Longrightarrow>
   deletePrefix_loop isRoot n pfx = Break"
  by (subst deletePrefix_loop.simps) simp

lemma deletePrefix_loop_here:
  assumes "getEdge n (hd pfx) = Some c" "HasPrefix (prefix c) pfx"
  shows "deletePrefix_loop isRoot n pfx =
     (case subTreeSize c of
        None \<Rightarrow> Panic
      | Some cnt \<Rightarrow>
          (case mergeParent isRoot (setEdgeNode n (hd pfx) (Node None (prefix c) [])) of
             None \<Rightarrow> Panic
           | Some n' \<Rightarrow> Done (n', cnt)))"
proof -
  from assms(2) obtain e where e: "prefix c = pfx @ e" by (auto simp: HasPrefix_iff)
  have "(if length (prefix c) > length pfx then drop (length pfx) pfx
         else drop (length (prefix c)) pfx) = []"
    by (simp add: e)
  with assms show ?thesis
    by (subst deletePrefix_loop.simps) (simp add: Let_def)
qed

lemma deletePrefix_loop_descend:
  assumes "getEdge n (hd pfx) = Some c" "pfx = prefix c @ r" "r \<noteq> []"
  shows "deletePrefix_loop isRoot n pfx =
     (case deletePrefix_loop False c r of
        Panic \<Rightarrow> Panic
      | Break \<Rightarrow> Break
      | Done (c', cnt) \<Rightarrow> Done (setEdgeNode n (hd pfx) c', cnt))"
proof -
  have "(if length (prefix c) > length pfx then drop (length pfx) pfx
         else drop (length (prefix c)) pfx) = r"
    using assms(2,3) by simp
  moreover have "HasPrefix pfx (prefix c)" using assms(2) by simp
  ultimately show ?thesis
    using assms(1,3) by (subst deletePrefix_loop.simps) (simp add: Let_def)
qed

lemma look_emptied [simp]: "look (Node None p []) t = None"
  by (simp add: look_def lookup_no_edges)

lemma look_lift_prefix:
  assumes "prefix n1 = prefix n" "\<And>r. lookup n1 r = (if HasPrefix r x then None else lookup n r)"
  shows "look n1 t = (if HasPrefix t (prefix n @ x) then None else look n t)"
proof (cases "HasPrefix t (prefix n)")
  case True
  then obtain r where "t = prefix n @ r" by (auto simp: HasPrefix_iff)
  with assms show ?thesis by (simp add: look_def)
next
  case False
  then have "\<not> HasPrefix t (prefix n @ x)" by (auto simp: HasPrefix_iff)
  with False assms(1) show ?thesis by (simp add: look_def)
qed

lemma deletePrefixSpec_here:
  assumes wf: "wfn (Q @ prefix n) n" and p: "pfx \<noteq> []" and Some: "getEdge n (hd pfx) = Some c"
    and hp: "HasPrefix (prefix c) pfx"
  shows "deletePrefixSpec isRoot Q n pfx (deletePrefix_loop isRoot n pfx)"
proof -
  have so: "sortedEdges (edges n)" using wf by (rule wfn_sorted)
  note c = wfn_getEdge [OF wf Some]
  let ?c' = "Node None (prefix c) []"
  let ?n1 = "setEdgeNode n (hd pfx) ?c'"
  have cnt: "int (length (leaves c)) = int (card (under n pfx))"
    using length_leaves [OF c(3)] by (simp add: under_here [OF p Some hp] card_under_image)
  have w1: "wfn (Q @ prefix ?n1) ?n1"
    using wf Some c(1,2) by (simp add: wfn_setEdgeNode)
  from w1 obtain n' where n': "mergeParent isRoot ?n1 = Some n'" "wfn (Q @ prefix n') n'"
    "grows isRoot ?n1 n'" "\<And>t. look n' t = look ?n1 t"
    by (rule mergeParent_spec [where isRoot = isRoot]) blast
  have D: "deletePrefix_loop isRoot n pfx = Done (n', int (length (leaves c)))"
    by (simp add: deletePrefix_loop_here [OF Some hp] subTreeSize_leaves n'(1))
  have lk1: "lookup ?n1 r = (if HasPrefix r pfx then None else lookup n r)" for r
  proof (cases "r \<noteq> [] \<and> hd r = hd pfx")
    case True
    then have a: "lookup n r = look c r" using Some by (simp add: lookup_Cons)
    have "look c r = None" if "\<not> HasPrefix r pfx"
    proof -
      from that hp have "\<not> HasPrefix r (prefix c)" by (auto intro: HasPrefix_trans)
      then show ?thesis by (simp add: look_def)
    qed
    with True a show ?thesis
      by (simp add: lookup_setEdgeNode [OF so Some])
  next
    case False
    with p have "\<not> HasPrefix r pfx" by (auto simp: HasPrefix_iff)
    with False show ?thesis by (auto simp: lookup_setEdgeNode [OF so Some])
  qed
  have "look ?n1 t = (if HasPrefix t (prefix n @ pfx) then None else look n t)" for t
    using lk1 by (intro look_lift_prefix) simp_all
  moreover have "grows isRoot n n'" using n'(3) by (simp add: grows_def)
  ultimately show ?thesis
    using n'(2,4) cnt by (simp add: deletePrefixSpec_def D)
qed

lemma deletePrefixSpec_descend:
  assumes wf: "wfn (Q @ prefix n) n" and p: "pfx \<noteq> []" and Some: "getEdge n (hd pfx) = Some c"
    and sc: "pfx = prefix c @ r" and r: "r \<noteq> []"
    and IH: "deletePrefixSpec False (Q @ prefix n) c r (deletePrefix_loop False c r)"
  shows "deletePrefixSpec isRoot Q n pfx (deletePrefix_loop isRoot n pfx)"
proof -
  have so: "sortedEdges (edges n)" using wf by (rule wfn_sorted)
  note c = wfn_getEdge [OF wf Some]
  note U = under_descend [OF sc p Some]
  show ?thesis
  proof (cases "deletePrefix_loop False c r")
    case Panic
    with IH show ?thesis by (simp add: deletePrefixSpec_def)
  next
    case Break
    with IH show ?thesis
      by (simp add: deletePrefixSpec_def deletePrefix_loop_descend [OF Some sc r] U)
  next
    case (Done res)
    obtain c' cnt where res: "res = (c', cnt)" by (cases res)
    from IH Done res have c': "cnt = int (card (under c r))"
      "wfn ((Q @ prefix n) @ prefix c') c'" "grows False c c'"
      "\<And>t. look c' t = (if HasPrefix t (prefix c @ r) then None else look c t)"
      by (auto simp: deletePrefixSpec_def)
    from c'(3) c have pc: "prefix c' \<noteq> []" "hd (prefix c') = hd pfx"
      by (auto simp: grows_def)
    let ?n' = "setEdgeNode n (hd pfx) c'"
    have D: "deletePrefix_loop isRoot n pfx = Done (?n', cnt)"
      using Done res by (simp add: deletePrefix_loop_descend [OF Some sc r])
    have w: "wfn (Q @ prefix ?n') ?n'"
      using wf Some pc c'(2) by (simp add: wfn_setEdgeNode)
    have c4: "look c' t = (if HasPrefix t pfx then None else look c t)" for t
      using c'(4) [of t] by (simp add: sc)
    have lk: "lookup ?n' t = (if HasPrefix t pfx then None else lookup n t)" for t
    proof (cases "t \<noteq> [] \<and> hd t = hd pfx")
      case True
      then have "lookup n t = look c t" using Some by (simp add: lookup_Cons)
      with True show ?thesis
        by (simp add: lookup_setEdgeNode [OF so Some] c4)
    next
      case False
      with p have "\<not> HasPrefix t pfx" by (auto simp: HasPrefix_iff)
      with False show ?thesis by (auto simp: lookup_setEdgeNode [OF so Some])
    qed
    have "look ?n' t = (if HasPrefix t (prefix n @ pfx) then None else look n t)" for t
      using lk by (intro look_lift_prefix) simp_all
    with D w c'(1) show ?thesis
      by (simp add: deletePrefixSpec_def grows_prefix U card_under_image)
  qed
qed

lemma deletePrefix_loop_spec:
  "wfn (Q @ prefix n) n \<Longrightarrow> pfx \<noteq> [] \<Longrightarrow>
   deletePrefixSpec isRoot Q n pfx (deletePrefix_loop isRoot n pfx)"
proof (induction n pfx arbitrary: Q isRoot rule: lookup.induct)
  case (1 n pfx)
  note wf = \<open>wfn (Q @ prefix n) n\<close> and p = \<open>pfx \<noteq> []\<close>
  show ?case
  proof (cases "getEdge n (hd pfx)")
    case None
    have "under n pfx = {}"
    proof -
      have "lookup n k = None" if "HasPrefix k pfx" for k
      proof -
        from that p have "k \<noteq> []" "hd k = hd pfx" by (auto simp: HasPrefix_iff)
        with None show ?thesis by (simp add: lookup_Cons)
      qed
      then show ?thesis by (auto simp: under_def)
    qed
    with None show ?thesis
      by (simp add: deletePrefixSpec_def deletePrefix_loop_missing)
  next
    case (Some c)
    note c = wfn_getEdge [OF wf Some]
    show ?thesis
    proof (cases "HasPrefix (prefix c) pfx")
      case True
      with wf p Some show ?thesis by (rule deletePrefixSpec_here)
    next
      case np: False
      show ?thesis
      proof (cases "HasPrefix pfx (prefix c)")
        case False
        have "look c k = None" if "HasPrefix k pfx" for k
        proof (rule ccontr)
          assume "look c k \<noteq> None"
          then have "HasPrefix k (prefix c)" by (auto simp: look_def split: if_splits)
          with that have "\<exists>a b. pfx @ a = prefix c @ b" by (auto simp: HasPrefix_iff)
          then obtain a b where "pfx @ a = prefix c @ b" by blast
          then have "HasPrefix pfx (prefix c) \<or> HasPrefix (prefix c) pfx"
            unfolding HasPrefix_iff append_eq_append_conv2 by metis
          with np False show False by simp
        qed
        then have "under n pfx = {}"
          by (auto simp: under_edge [OF p Some])
        with Some np False show ?thesis
          by (simp add: deletePrefixSpec_def deletePrefix_loop_mismatch)
      next
        case True
        then obtain r where r: "pfx = prefix c @ r" by (auto simp: HasPrefix_iff)
        with np have rn: "r \<noteq> []" by auto
        have "wfn ((Q @ prefix n) @ prefix c) c" using c(3) by simp
        moreover have "drop (length (prefix c)) pfx \<noteq> []" using r rn by simp
        ultimately have "deletePrefixSpec False (Q @ prefix n) c (drop (length (prefix c)) pfx)
            (deletePrefix_loop False c (drop (length (prefix c)) pfx))"
          using p Some True by (intro "1.IH")
        then have "deletePrefixSpec False (Q @ prefix n) c r (deletePrefix_loop False c r)"
          by (simp add: r)
        with wf p Some r rn show ?thesis by (rule deletePrefixSpec_descend)
      qed
    qed
  qed
qed

subsection \<open>LongestPrefix\<close>

definition matches :: "'v node \<Rightarrow> string \<Rightarrow> string set" where
  "matches n s = {r. HasPrefix s r \<and> lookup n r \<noteq> None}"

definition longestSpec ::
  "'v node \<Rightarrow> string \<Rightarrow> 'v leafNode option \<Rightarrow> 'v leafNode option \<Rightarrow> bool"
where
  "longestSpec n s lastLeaf res \<longleftrightarrow>
     (if matches n s = {} then res = lastLeaf
      else (\<exists>r l. res = Some l \<and> lookup n r = Some l \<and> r \<in> matches n s \<and>
                  (\<forall>r' \<in> matches n s. length r' \<le> length r)))"

lemma LongestPrefix_loop_stop:
  "s = [] \<or> getEdge n (hd s) = None \<or> (\<exists>c. getEdge n (hd s) = Some c \<and> \<not> HasPrefix s (prefix c)) \<Longrightarrow>
   LongestPrefix_loop lastLeaf n s = (if isLeaf n then leaf n else lastLeaf)"
  by (subst LongestPrefix_loop.simps) (auto simp: Let_def)

lemma LongestPrefix_loop_descend:
  "s \<noteq> [] \<Longrightarrow> getEdge n (hd s) = Some c \<Longrightarrow> HasPrefix s (prefix c) \<Longrightarrow>
   LongestPrefix_loop lastLeaf n s =
     LongestPrefix_loop (if isLeaf n then leaf n else lastLeaf) c (drop (length (prefix c)) s)"
  by (subst LongestPrefix_loop.simps) (simp add: Let_def)

lemma matches_stop:
  assumes "s = [] \<or> getEdge n (hd s) = None \<or> (\<exists>c. getEdge n (hd s) = Some c \<and> \<not> HasPrefix s (prefix c))"
  shows "matches n s = (if leaf n = None then {} else {[]})"
proof -
  have "lookup n r = None" if "HasPrefix s r" "r \<noteq> []" for r
  proof -
    from that have s: "s \<noteq> []" "hd r = hd s" by (auto simp: HasPrefix_iff)
    from assms s(1) consider "getEdge n (hd s) = None"
      | c where "getEdge n (hd s) = Some c" "\<not> HasPrefix s (prefix c)" by auto
    then show ?thesis
    proof cases
      case 1
      with that s show ?thesis by (simp add: lookup_Cons)
    next
      case 2
      from 2(2) that(1) have "\<not> HasPrefix r (prefix c)" by (auto intro: HasPrefix_trans)
      with 2(1) that s show ?thesis by (simp add: lookup_Cons look_def)
    qed
  qed
  then have "r \<in> matches n s \<longleftrightarrow> r \<in> (if leaf n = None then {} else {[]})" for r
    by (cases "r = []") (auto simp: matches_def)
  then show ?thesis by blast
qed

lemma matches_descend:
  assumes "s \<noteq> []" "getEdge n (hd s) = Some c" "s = prefix c @ s'" "prefix c \<noteq> []"
  shows "matches n s = (if leaf n = None then {} else {[]}) \<union> (@) (prefix c) ` matches c s'"
proof (intro set_eqI)
  fix r
  show "r \<in> matches n s \<longleftrightarrow>
        r \<in> (if leaf n = None then {} else {[]}) \<union> (@) (prefix c) ` matches c s'"
  proof (cases "r = []")
    case True
    with assms(4) show ?thesis by (auto simp: matches_def)
  next
    case False
    show ?thesis
    proof (cases "HasPrefix s r")
      case hs: True
      with False assms(1) have "hd r = hd s" by (auto simp: HasPrefix_iff)
      with False assms(2) have lk: "lookup n r = look c r" by (simp add: lookup_Cons)
      show ?thesis
      proof (cases "HasPrefix r (prefix c)")
        case True
        then obtain r' where r': "r = prefix c @ r'" by (auto simp: HasPrefix_iff)
        have a: "lookup n r = lookup c r'" using lk by (simp add: r')
        have b: "HasPrefix s r \<longleftrightarrow> HasPrefix s' r'" by (simp add: r' assms(3))
        have c: "r \<in> (@) (prefix c) ` matches c s' \<longleftrightarrow> r' \<in> matches c s'"
          by (auto simp: r')
        have "r \<in> matches n s \<longleftrightarrow> r' \<in> matches c s'"
          by (simp add: matches_def a b)
        with False c show ?thesis by simp
      next
        case np: False
        then have "r \<notin> (@) (prefix c) ` matches c s'" by auto
        with np False show ?thesis by (simp add: matches_def lk look_def)
      qed
    next
      case nh: False
      then have "r \<notin> (@) (prefix c) ` matches c s'"
        by (auto simp: matches_def assms(3))
      with nh False show ?thesis by (simp add: matches_def)
    qed
  qed
qed

lemma longestSpec_none: "matches n s = {} \<Longrightarrow> longestSpec n s lastLeaf lastLeaf"
  by (simp add: longestSpec_def)

lemma longestSpec_some:
  "r \<in> matches n s \<Longrightarrow> lookup n r = Some l \<Longrightarrow> (\<And>r'. r' \<in> matches n s \<Longrightarrow> length r' \<le> length r) \<Longrightarrow>
   longestSpec n s lastLeaf (Some l)"
  unfolding longestSpec_def by (auto intro!: exI [of _ r])

lemma longestSpec_stop:
  assumes "matches n s = (if leaf n = None then {} else {[]})"
  shows "longestSpec n s lastLeaf (if isLeaf n then leaf n else lastLeaf)"
proof (cases "leaf n")
  case None
  with assms have "matches n s = {}" by simp
  with None show ?thesis by (simp add: isLeaf_def longestSpec_none)
next
  case (Some l)
  with assms have m: "matches n s = {[]}" by simp
  have "longestSpec n s lastLeaf (Some l)"
    by (rule longestSpec_some [of "[]"]) (simp_all add: m Some)
  with Some show ?thesis by (simp add: isLeaf_def)
qed

lemma longestSpec_descend:
  assumes M: "matches n s = (if leaf n = None then {} else {[]}) \<union> (@) (prefix c) ` matches c s'"
    and lk: "\<And>r. lookup n (prefix c @ r) = lookup c r"
    and IH: "longestSpec c s' (if isLeaf n then leaf n else lastLeaf) res"
  shows "longestSpec n s lastLeaf res"
proof (cases "matches c s' = {}")
  case True
  with IH have res: "res = (if isLeaf n then leaf n else lastLeaf)" by (simp add: longestSpec_def)
  from True M have "matches n s = (if leaf n = None then {} else {[]})" by simp
  then show ?thesis unfolding res by (rule longestSpec_stop)
next
  case False
  with IH obtain r l where r: "res = Some l" "lookup c r = Some l"
    "r \<in> matches c s'" "\<forall>r' \<in> matches c s'. length r' \<le> length r"
    unfolding longestSpec_def by auto
  show ?thesis
    unfolding r(1)
  proof (rule longestSpec_some [of "prefix c @ r"])
    show "prefix c @ r \<in> matches n s" using r(3) unfolding M by blast
    show "lookup n (prefix c @ r) = Some l" using r(2) by (simp add: lk)
    fix r'
    assume "r' \<in> matches n s"
    then consider "r' = []" | r2 where "r' = prefix c @ r2" "r2 \<in> matches c s'"
      unfolding M by (auto split: if_splits)
    then show "length r' \<le> length (prefix c @ r)"
    proof cases
      case 1
      then show ?thesis by simp
    next
      case 2
      with r(4) show ?thesis by auto
    qed
  qed
qed

lemma LongestPrefix_loop_spec:
  "wfn P n \<Longrightarrow> longestSpec n s lastLeaf (LongestPrefix_loop lastLeaf n s)"
proof (induction n s arbitrary: P lastLeaf rule: lookup.induct)
  case (1 n s)
  note wf = \<open>wfn P n\<close>
  let ?last = "if isLeaf n then leaf n else lastLeaf"
  show ?case
  proof (cases "s = [] \<or> getEdge n (hd s) = None \<or>
            (\<exists>c. getEdge n (hd s) = Some c \<and> \<not> HasPrefix s (prefix c))")
    case True
    from matches_stop [OF True] have "longestSpec n s lastLeaf ?last"
      by (rule longestSpec_stop)
    then show ?thesis unfolding LongestPrefix_loop_stop [OF True] .
  next
    case False
    then obtain c where s: "s \<noteq> []" and c: "getEdge n (hd s) = Some c"
      and hp: "HasPrefix s (prefix c)" by auto
    then obtain s' where s': "s = prefix c @ s'" by (auto simp: HasPrefix_iff)
    have dr: "drop (length (prefix c)) s = s'" by (simp add: s')
    note wc = wfn_getEdge [OF wf c]
    have IH: "longestSpec c s' ?last (LongestPrefix_loop ?last c s')"
      using "1.IH" [OF s c hp wc(3), of ?last] unfolding dr .
    have L: "LongestPrefix_loop lastLeaf n s = LongestPrefix_loop ?last c s'"
      using LongestPrefix_loop_descend [OF s c hp, of lastLeaf] unfolding dr .
    have lk: "lookup n (prefix c @ r) = lookup c r" for r
      using c wc(1,2) by (simp add: lookup_Cons)
    show ?thesis
      unfolding L using matches_descend [OF s c s' wc(1)] lk IH by (rule longestSpec_descend)
  qed
qed

subsection \<open>DeletePrefix on the tree\<close>

lemma DeletePrefix_spec:
  fixes t :: "('v::zero) tree"
  assumes "wf t"
  obtains t' where
    "DeletePrefix t p = Some (t', int (card (under (root t) p)))"
    "wf t'"
    "\<And>k. lookup (root t') k = (if HasPrefix k p then None else lookup (root t) k)"
    "tsize t' = tsize t - int (card (under (root t) p))"
proof -
  from assms have w: "wfn [] (root t)" and pr: "prefix (root t) = []" by (auto simp: wf_def)
  have fin: "finite (stored (root t))" using w by (rule stored_finite)
  have sz: "tsize t = int (card (stored (root t)))" using assms by (rule wf_size)
  have sub: "under (root t) p \<subseteq> stored (root t)" by (auto simp: under_def stored_def)
  have fin_wf: "wf \<lparr>root = n', tsize = tsize t - int (card (under (root t) p))\<rparr>"
    if "wfn [] n'" "prefix n' = []"
      "\<And>k. lookup n' k = (if HasPrefix k p then None else lookup (root t) k)" for n'
  proof -
    have S: "stored n' = stored (root t) - under (root t) p"
      by (auto simp: stored_def under_def that(3))
    have "int (card (stored n')) = tsize t - int (card (under (root t) p))"
      unfolding S sz using fin sub
      by (simp add: card_Diff_subset finite_subset card_mono of_nat_diff)
    then show ?thesis using that(1,2) by (intro wfI) simp_all
  qed
  show thesis
  proof (cases "p = []")
    case True
    let ?n' = "Node (None :: 'v leafNode option) (prefix (root t)) []"
    have c: "int (length (leaves (root t))) = int (card (under (root t) p))"
      using length_leaves [OF w] by (simp add: True under_Nil)
    have lk: "lookup ?n' k = (if HasPrefix k p then None else lookup (root t) k)" for k
      by (simp add: True lookup_no_edges)
    have "wf \<lparr>root = ?n', tsize = tsize t - int (card (under (root t) p))\<rparr>"
      by (rule fin_wf) (use pr lk in simp_all)
    with lk c True show ?thesis
      by (intro that [of "\<lparr>root = ?n', tsize = tsize t - int (card (under (root t) p))\<rparr>"])
         (simp_all add: DeletePrefix_def subTreeSize_leaves)
  next
    case False
    from w pr have "wfn ([] @ prefix (root t)) (root t)" by simp
    from deletePrefix_loop_spec [OF this False, of True]
    have D: "deletePrefixSpec True [] (root t) p (deletePrefix_loop True (root t) p)" .
    show ?thesis
    proof (cases "deletePrefix_loop True (root t) p")
      case Panic
      with D show ?thesis by (simp add: deletePrefixSpec_def)
    next
      case Break
      with D have e: "under (root t) p = {}" by (simp add: deletePrefixSpec_def)
      then have "lookup (root t) k = (if HasPrefix k p then None else lookup (root t) k)" for k
        by (auto simp: under_def)
      with Break False e assms show ?thesis
        by (intro that [of t]) (simp_all add: DeletePrefix_def)
    next
      case (Done res)
      obtain n' cnt where res: "res = (n', cnt)" by (cases res)
      from D Done res have n': "cnt = int (card (under (root t) p))"
        "wfn ([] @ prefix n') n'" "grows True (root t) n'"
        "\<And>s. look n' s = (if HasPrefix s (prefix (root t) @ p) then None else look (root t) s)"
        by (auto simp: deletePrefixSpec_def)
      from n'(3) pr have pn: "prefix n' = []" by (simp add: grows_def)
      have lk: "lookup n' k = (if HasPrefix k p then None else lookup (root t) k)" for k
        using n'(4) [of k] by (simp add: look_root pn pr)
      have "wf \<lparr>root = n', tsize = tsize t - int (card (under (root t) p))\<rparr>"
        by (rule fin_wf) (use n'(2) pn lk in simp_all)
      with lk Done res False n'(1) show ?thesis
        by (intro that [of "\<lparr>root = n', tsize = tsize t - int (card (under (root t) p))\<rparr>"])
           (simp_all add: DeletePrefix_def)
    qed
  qed
qed

subsection \<open>Sequences of operations\<close>

datatype 'v op = OpInsert string 'v | OpDelete string | OpDeletePrefix string

fun apply_op :: "('v::zero) tree \<Rightarrow> 'v op \<Rightarrow> 'v tree option" where
  "apply_op t (OpInsert k v) = map_option fst (Insert t k v)"
| "apply_op t (OpDelete k) = map_option fst (Delete t k)"
| "apply_op t (OpDeletePrefix p) = map_option fst (DeletePrefix t p)"

fun run :: "('v::zero) op list \<Rightarrow> 'v tree \<Rightarrow> 'v tree option" where
  "run [] t = Some t"
| "run (x # xs) t = (case apply_op t x of None \<Rightarrow> None | Some t' \<Rightarrow> run xs t')"

text \<open>A sequence of \<open>Insert\<close> calls, one for each pair of the list, in order.\<close>

definition inserts :: "(string \<times> 'v) list \<Rightarrow> ('v::zero) op list" where
  "inserts kvs = map (\<lambda>(k, v). OpInsert k v) kvs"

lemma apply_op_wf:
  assumes "wf t"
  obtains t' where "apply_op t x = Some t'" "wf t'"
proof (cases x)
  case (OpInsert k v)
  from assms obtain t' where "Insert t k v = Some (t', (case lookup (root t) k of None \<Rightarrow> 0 | Some l \<Rightarrow> val l),
                          lookup (root t) k \<noteq> None)" "wf t'"
    by (rule Insert_spec [of t k v]) blast
  with OpInsert show ?thesis by (intro that [of t']) simp_all
next
  case (OpDelete k)
  from assms show ?thesis
  proof (cases rule: Delete_spec [of t k])
    case absent
    with OpDelete assms show ?thesis by (intro that [of t]) simp_all
  next
    case (present l t')
    with OpDelete show ?thesis by (intro that [of t']) simp_all
  qed
next
  case (OpDeletePrefix p)
  from assms obtain t' where "DeletePrefix t p = Some (t', int (card (under (root t) p)))" "wf t'"
    by (rule DeletePrefix_spec [of t p]) blast
  with OpDeletePrefix show ?thesis by (intro that [of t']) simp_all
qed

lemma run_wf_gen: "wf t \<Longrightarrow> \<exists>t'. run xs t = Some t' \<and> wf t'"
proof (induction xs arbitrary: t)
  case Nil
  then show ?case by simp
next
  case (Cons x xs)
  from Cons.prems obtain t1 where t1: "apply_op t x = Some t1" "wf t1"
    by (rule apply_op_wf)
  from Cons.IH [OF t1(2)] t1(1) show ?case by simp
qed

lemma run_wf: "run xs New = Some t \<Longrightarrow> wf t"
  using run_wf_gen [OF wf_New, of xs] by auto

lemma run_total: "\<exists>t. run xs New = Some t"
  using run_wf_gen [OF wf_New, of xs] by auto

section \<open>The claims\<close>

text \<open>
  Every claim about ``every tree'' is stated for the trees that the public operations can
  build: \<open>run ops New = Some t\<close> says that \<open>t\<close> is what the sequence \<open>ops\<close> of calls of
  \<open>Insert\<close>, \<open>Delete\<close> and \<open>DeletePrefix\<close> leaves of the empty tree.
\<close>

subsection \<open>Insert reports the previous value\<close>

text \<open>
  Claim C9. On every tree, \<open>Insert\<close> of a key that is present (one that \<open>Get\<close> finds)
  returns the value stored for it before and \<open>True\<close>; \<open>Insert\<close> of a key that is not
  present returns the zero value of the value type and \<open>False\<close>. In particular \<open>Insert\<close>
  does not panic.
\<close>

theorem Insert_returns:
  assumes "run ops New = Some t"
  shows "(if snd (Get t k)
          then map_option snd (Insert t k v) = Some (fst (Get t k), True)
          else map_option snd (Insert t k v) = Some (0, False))"
proof -
  from assms have "wf t" by (rule run_wf)
  then obtain t' where
    "Insert t k v = Some (t', (case lookup (root t) k of None \<Rightarrow> 0 | Some l \<Rightarrow> val l),
                          lookup (root t) k \<noteq> None)"
    by (rule Insert_spec [of t k v]) blast
  then show ?thesis by (simp add: Get_lookup split: option.splits)
qed

theorem Insert_returns_witness:
  "run [OpInsert ''ab'' (7::int)] New =
     Some \<lparr>root = Node None [] [(CHR ''a'', Node (Some (LeafNode ''ab'' 7)) ''ab'' [])],
           tsize = 1\<rparr>
   \<and> snd (Get \<lparr>root = Node None [] [(CHR ''a'', Node (Some (LeafNode ''ab'' (7::int))) ''ab'' [])],
                tsize = 1\<rparr> ''ab'')
   \<and> map_option snd
        (Insert \<lparr>root = Node None [] [(CHR ''a'', Node (Some (LeafNode ''ab'' (7::int))) ''ab'' [])],
                 tsize = 1\<rparr> ''ab'' 9) = Some (7, True)
   \<and> map_option snd
        (Insert \<lparr>root = Node None [] [(CHR ''a'', Node (Some (LeafNode ''ab'' (7::int))) ''ab'' [])],
                 tsize = 1\<rparr> ''a'' 9) = Some (0, False)"
proof -
  let ?t = "\<lparr>root = Node None [] [(CHR ''a'', Node (Some (LeafNode ''ab'' (7::int))) ''ab'' [])],
             tsize = 1\<rparr>"
  have h: "run [OpInsert ''ab'' (7::int)] New = Some ?t" by code_simp
  have g1: "snd (Get ?t ''ab'')" by code_simp
  have g2: "\<not> snd (Get ?t ''a'')" by code_simp
  have g3: "fst (Get ?t ''ab'') = 7" by code_simp
  from Insert_returns [OF h, of "''ab''" 9] Insert_returns [OF h, of "''a''" 9] h g1 g2 g3
  show ?thesis by simp
qed

subsection \<open>Delete of a present and of an absent key\<close>

text \<open>
  Claim C8. On every tree, \<open>Delete\<close> of a key that is present returns the value stored for
  it and \<open>True\<close>, and \<open>Get\<close> no longer finds the key in the tree it leaves; \<open>Delete\<close> of a
  key that is absent returns \<open>False\<close> (with the zero value) and the very same tree, so
  \<open>Len\<close> and every node are as before.
\<close>

theorem Delete_present_absent:
  assumes "run ops New = Some t"
  shows "(if snd (Get t k)
          then \<exists>t'. Delete t k = Some (t', fst (Get t k), True) \<and> \<not> snd (Get t' k)
          else Delete t k = Some (t, 0, False) \<and>
               map_option (Len \<circ> fst) (Delete t k) = Some (Len t))"
proof -
  from assms have "wf t" by (rule run_wf)
  then show ?thesis
  proof (cases rule: Delete_spec [of t k])
    case absent
    then show ?thesis by (simp add: Get_lookup)
  next
    case (present l t')
    from present(4) [of k] have "\<not> snd (Get t' k)" by (simp add: Get_found)
    with present(1,2) show ?thesis by (simp add: Get_lookup)
  qed
qed

theorem Delete_present_absent_witness:
  "run [OpInsert ''ab'' (7::int)] New =
     Some \<lparr>root = Node None [] [(CHR ''a'', Node (Some (LeafNode ''ab'' 7)) ''ab'' [])],
           tsize = 1\<rparr>
   \<and> Delete \<lparr>root = Node None [] [(CHR ''a'', Node (Some (LeafNode ''ab'' (7::int))) ''ab'' [])],
              tsize = 1\<rparr> ''ab''
       = Some (\<lparr>root = Node None [] [], tsize = 0\<rparr>, 7, True)
   \<and> Delete \<lparr>root = Node None [] [(CHR ''a'', Node (Some (LeafNode ''ab'' (7::int))) ''ab'' [])],
              tsize = 1\<rparr> ''a''
       = Some (\<lparr>root = Node None [] [(CHR ''a'', Node (Some (LeafNode ''ab'' 7)) ''ab'' [])],
                tsize = 1\<rparr>, 0, False)"
proof -
  let ?t = "\<lparr>root = Node None [] [(CHR ''a'', Node (Some (LeafNode ''ab'' (7::int))) ''ab'' [])],
             tsize = 1\<rparr>"
  have h: "run [OpInsert ''ab'' (7::int)] New = Some ?t" by code_simp
  have g1: "snd (Get ?t ''ab'')" by code_simp
  have g2: "\<not> snd (Get ?t ''a'')" by code_simp
  have g3: "Delete ?t ''ab'' = Some (\<lparr>root = Node None [] [], tsize = 0\<rparr>, 7, True)"
    by code_simp
  from Delete_present_absent [OF h, of "''a''"] g2 g3 h
  show ?thesis by simp
qed

subsection \<open>A sequence of Inserts\<close>

lemma inserts_lookup:
  assumes "wf t"
  shows "\<exists>t'. run (inserts kvs) t = Some t' \<and> wf t' \<and>
           (\<forall>k. map_option val (lookup (root t') k) =
                (case map_of (rev kvs) k of Some v \<Rightarrow> Some v
                 | None \<Rightarrow> map_option val (lookup (root t) k)))"
  using assms
proof (induction kvs arbitrary: t)
  case Nil
  then show ?case by (simp add: inserts_def)
next
  case (Cons kv kvs)
  obtain k v where kv: "kv = (k, v)" by (cases kv)
  from Cons.prems obtain t1 where t1:
    "Insert t k v = Some (t1, (case lookup (root t) k of None \<Rightarrow> 0 | Some l \<Rightarrow> val l),
                          lookup (root t) k \<noteq> None)"
    "wf t1"
    "\<And>k'. lookup (root t1) k' = (if k' = k then Some (LeafNode k v) else lookup (root t) k')"
    by (rule Insert_spec [of t k v]) blast
  from Cons.IH [OF t1(2)] obtain t' where t':
    "run (inserts kvs) t1 = Some t'" "wf t'"
    "\<And>k'. map_option val (lookup (root t') k') =
                (case map_of (rev kvs) k' of Some v \<Rightarrow> Some v
                 | None \<Rightarrow> map_option val (lookup (root t1) k'))"
    by blast
  have "run (inserts (kv # kvs)) t = Some t'"
    using t1(1) t'(1) by (simp add: inserts_def kv)
  moreover have "map_option val (lookup (root t') k') =
                (case map_of (rev (kv # kvs)) k' of Some v \<Rightarrow> Some v
                 | None \<Rightarrow> map_option val (lookup (root t) k'))" for k'
    unfolding t'(3) [of k'] t1(3) [of k']
    by (simp add: kv map_add_def split: option.splits)
  ultimately show ?case using t'(2) by blast
qed

text \<open>
  Claim C1. Every sequence \<open>kvs\<close> of \<open>Insert\<close> calls on the empty tree runs without a
  panic and leaves a tree \<open>t\<close> in which \<open>Get\<close> on every inserted key returns the value of
  the last \<open>Insert\<close> with that key (the first entry for the key in the reversed sequence)
  together with \<open>True\<close>, and \<open>Len\<close> is the number of distinct keys inserted.
\<close>

theorem Insert_sequence:
  "\<exists>t. run (inserts kvs) New = Some t \<and>
       (\<forall>k v. map_of (rev kvs) k = Some v \<longrightarrow> Get t k = (v, True)) \<and>
       Len t = int (card (fst ` set kvs))"
proof -
  from inserts_lookup [OF wf_New, of kvs] obtain t where t:
    "run (inserts kvs) New = Some t" "wf t"
    "\<And>k. map_option val (lookup (root t) k) =
                (case map_of (rev kvs) k of Some v \<Rightarrow> Some v
                 | None \<Rightarrow> map_option val (lookup (root (New :: 'a tree)) k))"
    by blast
  have lkNew: "lookup (root (New :: 'a tree)) k = None" for k
    by (simp add: New_def lookup_no_edges)
  have g: "Get t k = (v, True)" if "map_of (rev kvs) k = Some v" for k v
    using t(3) [of k] that by (auto simp: Get_lookup split: option.splits)
  have "stored (root t) = fst ` set kvs"
  proof (intro set_eqI)
    fix k
    have "k \<in> stored (root t) \<longleftrightarrow> map_of (rev kvs) k \<noteq> None"
      using t(3) [of k] by (auto simp: stored_def lkNew split: option.splits)
    also have "\<dots> \<longleftrightarrow> k \<in> fst ` set kvs"
      by (simp add: map_of_eq_None_iff)
    finally show "k \<in> stored (root t) \<longleftrightarrow> k \<in> fst ` set kvs" .
  qed
  with wf_size [OF t(2)] have "Len t = int (card (fst ` set kvs))" by (simp add: Len_def)
  with t(1) g show ?thesis by blast
qed

theorem Insert_sequence_witness:
  "run (inserts [(''a'', 1::int), (''ab'', 2), (''a'', 3)]) New =
     Some \<lparr>root = Node None [] [(CHR ''a'', Node (Some (LeafNode ''a'' 3)) ''a''
                     [(CHR ''b'', Node (Some (LeafNode ''ab'' 2)) ''b'' [])])], tsize = 2\<rparr>
   \<and> Get \<lparr>root = Node None [] [(CHR ''a'', Node (Some (LeafNode ''a'' 3)) ''a''
                     [(CHR ''b'', Node (Some (LeafNode ''ab'' 2)) ''b'' [])])], tsize = 2\<rparr> ''a''
       = (3::int, True)
   \<and> Get \<lparr>root = Node None [] [(CHR ''a'', Node (Some (LeafNode ''a'' 3)) ''a''
                     [(CHR ''b'', Node (Some (LeafNode ''ab'' 2)) ''b'' [])])], tsize = 2\<rparr> ''ab''
       = (2::int, True)
   \<and> Len \<lparr>root = Node None [] [(CHR ''a'', Node (Some (LeafNode ''a'' (3::int))) ''a''
                     [(CHR ''b'', Node (Some (LeafNode ''ab'' 2)) ''b'' [])])], tsize = 2\<rparr> = 2"
proof -
  let ?kvs = "[(''a'', 1::int), (''ab'', 2), (''a'', 3)]"
  let ?t = "\<lparr>root = Node None [] [(CHR ''a'', Node (Some (LeafNode ''a'' (3::int))) ''a''
                     [(CHR ''b'', Node (Some (LeafNode ''ab'' 2)) ''b'' [])])], tsize = 2\<rparr>"
  have h: "run (inserts ?kvs) New = Some ?t" by code_simp
  have m1: "map_of (rev ?kvs) ''a'' = Some 3" by simp
  have m2: "map_of (rev ?kvs) ''ab'' = Some 2" by simp
  have c: "card (fst ` set ?kvs) = 2" by (simp add: card_insert_if)
  from Insert_sequence [of ?kvs] obtain t where t: "run (inserts ?kvs) New = Some t"
    "\<forall>k v. map_of (rev ?kvs) k = Some v \<longrightarrow> Get t k = (v, True)"
    "Len t = int (card (fst ` set ?kvs))" by blast
  from t(1) h have "t = ?t" by simp
  with t(2) m1 m2 t(3) c h show ?thesis by simp
qed

subsection \<open>LongestPrefix\<close>

text \<open>
  Claim C6. On every tree and for every query \<open>s\<close>, \<open>LongestPrefix t s\<close> returns
  \<open>found = True\<close> exactly when some stored key (one that \<open>Get\<close> finds, the empty key
  included) is a byte prefix of \<open>s\<close>; and when it does, the key \<open>k\<close> it returns is a prefix
  of \<open>s\<close>, is stored with the value \<open>v\<close> it returns, and no stored prefix of \<open>s\<close> is longer.
\<close>

theorem LongestPrefix_longest:
  assumes "run ops New = Some t"
  shows "(case LongestPrefix t s of
            (k, v, found) \<Rightarrow>
              (found \<longleftrightarrow> (\<exists>r. HasPrefix s r \<and> snd (Get t r))) \<and>
              (found \<longrightarrow> HasPrefix s k \<and> Get t k = (v, True) \<and>
                 (\<forall>r. HasPrefix s r \<and> snd (Get t r) \<longrightarrow> length r \<le> length k)))"
proof -
  from assms have "wf t" by (rule run_wf)
  then have w: "wfn [] (root t)" by (simp add: wf_def)
  have m: "matches (root t) s = {r. HasPrefix s r \<and> snd (Get t r)}"
    by (simp add: matches_def Get_found)
  from LongestPrefix_loop_spec [OF w, of s None]
  have L: "longestSpec (root t) s None (LongestPrefix_loop None (root t) s)" .
  show ?thesis
  proof (cases "matches (root t) s = {}")
    case True
    with L have "LongestPrefix_loop None (root t) s = None" by (simp add: longestSpec_def)
    with True m show ?thesis by (auto simp: LongestPrefix_def)
  next
    case False
    with L obtain r l where rl: "LongestPrefix_loop None (root t) s = Some l"
      "lookup (root t) r = Some l" "r \<in> matches (root t) s"
      "\<forall>r' \<in> matches (root t) s. length r' \<le> length r"
      by (auto simp: longestSpec_def)
    from lookup_leaves [OF w rl(2)] have k: "key l = r" by simp
    from rl(3) have hp: "HasPrefix s r" by (simp add: matches_def)
    have g: "Get t r = (val l, True)" using rl(2) by (simp add: Get_lookup)
    from rl(4) have mx: "\<forall>r'. HasPrefix s r' \<and> snd (Get t r') \<longrightarrow> length r' \<le> length r"
      unfolding m by blast
    from False m have ex: "\<exists>r. HasPrefix s r \<and> snd (Get t r)" by blast
    show ?thesis using rl(1) k hp g mx ex by (simp add: LongestPrefix_def)
  qed
qed

theorem LongestPrefix_longest_witness:
  "run [OpInsert ''hello'' (1::int), OpInsert ''help'' 2, OpInsert ''x'' 3, OpDelete ''x''] New =
     Some \<lparr>root = Node None []
        [(CHR ''h'', Node None ''hel''
           [(CHR ''l'', Node (Some (LeafNode ''hello'' (1::int))) ''lo'' []),
            (CHR ''p'', Node (Some (LeafNode ''help'' 2)) ''p'' [])])],
      tsize = 2\<rparr>
   \<and> LongestPrefix \<lparr>root = Node None []
        [(CHR ''h'', Node None ''hel''
           [(CHR ''l'', Node (Some (LeafNode ''hello'' (1::int))) ''lo'' []),
            (CHR ''p'', Node (Some (LeafNode ''help'' 2)) ''p'' [])])],
      tsize = 2\<rparr> ''helpless'' = (''help'', 2, True)
   \<and> HasPrefix ''helpless'' ''help''
   \<and> Get \<lparr>root = Node None []
        [(CHR ''h'', Node None ''hel''
           [(CHR ''l'', Node (Some (LeafNode ''hello'' (1::int))) ''lo'' []),
            (CHR ''p'', Node (Some (LeafNode ''help'' 2)) ''p'' [])])],
      tsize = 2\<rparr> ''help'' = (2, True)"
proof -
  let ?t = "\<lparr>root = Node None []
        [(CHR ''h'', Node None ''hel''
           [(CHR ''l'', Node (Some (LeafNode ''hello'' (1::int))) ''lo'' []),
            (CHR ''p'', Node (Some (LeafNode ''help'' 2)) ''p'' [])])],
      tsize = 2\<rparr>"
  have h: "run [OpInsert ''hello'' (1::int), OpInsert ''help'' 2, OpInsert ''x'' 3, OpDelete ''x''] New = Some ?t"
    by code_simp
  have lp: "LongestPrefix ?t ''helpless'' = (''help'', 2, True)" by code_simp
  from LongestPrefix_longest [OF h, of "''helpless''"]
  have "HasPrefix ''helpless'' ''help'' \<and> Get ?t ''help'' = (2, True)"
    unfolding lp by simp
  with h lp show ?thesis by simp
qed

subsection \<open>The order of the walk, and ToMap\<close>







subsection \<open>DeletePrefix of a prefix that ends inside an edge\<close>

text \<open>
  The descent of \<open>deletePrefix\<close>, followed until the remaining search text ends strictly
  inside the prefix of the child it has reached: \<open>midEdge (root t) p = Some c\<close> says that
  \<open>p\<close> ends in the middle of the compressed edge into \<open>c\<close>.
\<close>

function midEdge :: "'v node \<Rightarrow> string \<Rightarrow> 'v node option" where
  "midEdge current pfx =
     (if pfx = [] then None
      else
        (case getEdge current (hd pfx) of
           None \<Rightarrow> None
         | Some child \<Rightarrow>
             if length (prefix child) > length pfx
             then (if HasPrefix (prefix child) pfx then Some child else None)
             else if HasPrefix pfx (prefix child)
                  then midEdge child (drop (length (prefix child)) pfx)
                  else None))"
  by pat_completeness auto
termination
  by (relation "measure (\<lambda>(current, pfx). size current)") (auto simp: getEdge_size)

declare midEdge.simps [simp del]

text \<open>The keys that a walk of a subtree passes to its visitor, in the order of the calls.\<close>

definition keysOf :: "'v node \<Rightarrow> string list option" where
  "keysOf current = map_option snd (recursiveWalk current (\<lambda>k v ks. (False, ks @ [k])) [])"

lemma visit_keys: "visit (\<lambda>k v ks. (False, ks @ [k])) ls acc = (False, acc @ map key ls)"
  by (induction ls arbitrary: acc) auto

lemma keysOf_leaves: "keysOf n = Some (map key (leaves n))"
  by (simp add: keysOf_def recursiveWalk_leaves visit_keys)

lemma midEdge_keys:
  "wfn P n \<Longrightarrow> midEdge n pfx = Some c \<Longrightarrow>
     key ` set (leaves c) = (@) P ` under n pfx \<and> distinct (map key (leaves c))"
proof (induction n pfx arbitrary: P rule: midEdge.induct)
  case (1 n pfx)
  note wf = \<open>wfn P n\<close>
  from "1.prems"(2) have ne: "pfx \<noteq> []" by (subst (asm) midEdge.simps) (simp split: if_splits)
  from "1.prems"(2) ne obtain child where ge: "getEdge n (hd pfx) = Some child"
    by (subst (asm) midEdge.simps) (simp split: option.splits)
  from wfn_getEdge [OF wf ge] have wc: "wfn (P @ prefix child) child" by simp
  show ?case
  proof (cases "length (prefix child) > length pfx")
    case True
    with "1.prems"(2) ne ge have hp: "HasPrefix (prefix child) pfx" and c: "c = child"
      by (subst (asm) midEdge.simps, simp split: if_splits)+
    from under_here [OF ne ge hp] have "under n pfx = (@) (prefix child) ` stored child" .
    then have "(@) P ` under n pfx = (@) (P @ prefix child) ` stored child"
      by (auto simp: image_image)
    with leaves_stored [OF wc] leaves_distinct [OF wc] c show ?thesis by simp
  next
    case False
    with "1.prems"(2) ne ge have hp: "HasPrefix pfx (prefix child)"
      and m: "midEdge child (drop (length (prefix child)) pfx) = Some c"
      by (subst (asm) midEdge.simps, simp split: if_splits)+
    from hp obtain r where r: "pfx = prefix child @ r" by (auto simp: HasPrefix_iff)
    with m have m': "midEdge child r = Some c" by simp
    from "1.IH" [OF ne ge False hp wc m]
    have IH: "key ` set (leaves c) = (@) (P @ prefix child) ` under child r"
      "distinct (map key (leaves c))" by (simp_all add: r)
    from under_descend [OF r ne ge] have "under n pfx = (@) (prefix child) ` under child r" .
    then have "(@) P ` under n pfx = (@) (P @ prefix child) ` under child r"
      by (auto simp: image_image)
    with IH show ?thesis by simp
  qed
qed

text \<open>
  Claim C10. On every tree, when the prefix \<open>p\<close> ends in the middle of the compressed edge
  into the child \<open>c\<close>, \<open>DeletePrefix t p\<close> returns the number of leaves of the subtree of
  \<open>c\<close> (the count \<open>subTreeSize c\<close>, the number of the keys \<open>ks\<close> of that subtree), every one
  of these keys begins with \<open>p\<close>, was stored before and is no longer found afterwards.
\<close>

theorem DeletePrefix_mid_edge:
  assumes "run ops New = Some t" and "midEdge (root t) p = Some c"
  shows "\<exists>t' ks. keysOf c = Some ks \<and> subTreeSize c = Some (int (length ks)) \<and>
           DeletePrefix t p = Some (t', int (length ks)) \<and> distinct ks \<and>
           (\<forall>k \<in> set ks. HasPrefix k p \<and> snd (Get t k) \<and> \<not> snd (Get t' k))"
proof -
  from assms(1) have wft: "wf t" by (rule run_wf)
  then have w: "wfn [] (root t)" by (simp add: wf_def)
  from midEdge_keys [OF w assms(2)]
  have k: "key ` set (leaves c) = under (root t) p" and d: "distinct (map key (leaves c))"
    by simp_all
  from distinct_card [OF d] k have card: "card (under (root t) p) = length (leaves c)" by simp
  from wft obtain t' where t':
    "DeletePrefix t p = Some (t', int (card (under (root t) p)))"
    "\<And>k. lookup (root t') k = (if HasPrefix k p then None else lookup (root t) k)"
    by (rule DeletePrefix_spec [of t p]) blast
  have "\<forall>k \<in> set (map key (leaves c)). HasPrefix k p \<and> snd (Get t k) \<and> \<not> snd (Get t' k)"
    using k t'(2) by (auto simp: under_def Get_found)
  with t'(1) card d show ?thesis
    by (intro exI [of _ t'] exI [of _ "map key (leaves c)"])
       (simp add: keysOf_leaves subTreeSize_leaves)
qed

theorem DeletePrefix_mid_edge_witness:
  "run [OpInsert ''hello'' (1::int), OpInsert ''help'' 2, OpInsert ''x'' 3] New =
     Some \<lparr>root = Node None []
        [(CHR ''h'', Node None ''hel''
           [(CHR ''l'', Node (Some (LeafNode ''hello'' (1::int))) ''lo'' []),
            (CHR ''p'', Node (Some (LeafNode ''help'' 2)) ''p'' [])]),
         (CHR ''x'', Node (Some (LeafNode ''x'' 3)) ''x'' [])],
      tsize = 3\<rparr>
   \<and> midEdge (root \<lparr>root = Node None []
        [(CHR ''h'', Node None ''hel''
           [(CHR ''l'', Node (Some (LeafNode ''hello'' (1::int))) ''lo'' []),
            (CHR ''p'', Node (Some (LeafNode ''help'' 2)) ''p'' [])]),
         (CHR ''x'', Node (Some (LeafNode ''x'' 3)) ''x'' [])],
      tsize = 3\<rparr>) ''he''
       = Some (Node None ''hel''
        [(CHR ''l'', Node (Some (LeafNode ''hello'' (1::int))) ''lo'' []),
         (CHR ''p'', Node (Some (LeafNode ''help'' 2)) ''p'' [])])
   \<and> keysOf (Node None ''hel''
        [(CHR ''l'', Node (Some (LeafNode ''hello'' (1::int))) ''lo'' []),
         (CHR ''p'', Node (Some (LeafNode ''help'' 2)) ''p'' [])]) = Some [''hello'', ''help'']
   \<and> DeletePrefix \<lparr>root = Node None []
        [(CHR ''h'', Node None ''hel''
           [(CHR ''l'', Node (Some (LeafNode ''hello'' (1::int))) ''lo'' []),
            (CHR ''p'', Node (Some (LeafNode ''help'' 2)) ''p'' [])]),
         (CHR ''x'', Node (Some (LeafNode ''x'' 3)) ''x'' [])],
      tsize = 3\<rparr> ''he''
       = Some (\<lparr>root = Node None []
        [(CHR ''h'', Node None ''hel'' []),
         (CHR ''x'', Node (Some (LeafNode ''x'' (3::int))) ''x'' [])],
      tsize = 1\<rparr>, 2)"
proof -
  let ?t = "\<lparr>root = Node None []
        [(CHR ''h'', Node None ''hel''
           [(CHR ''l'', Node (Some (LeafNode ''hello'' (1::int))) ''lo'' []),
            (CHR ''p'', Node (Some (LeafNode ''help'' 2)) ''p'' [])]),
         (CHR ''x'', Node (Some (LeafNode ''x'' 3)) ''x'' [])],
      tsize = 3\<rparr>"
  let ?c = "Node None ''hel''
        [(CHR ''l'', Node (Some (LeafNode ''hello'' (1::int))) ''lo'' []),
         (CHR ''p'', Node (Some (LeafNode ''help'' 2)) ''p'' [])]"
  have h: "run [OpInsert ''hello'' (1::int), OpInsert ''help'' 2, OpInsert ''x'' 3] New = Some ?t"
    by code_simp
  have m: "midEdge (root ?t) ''he'' = Some ?c" by code_simp
  have k: "keysOf ?c = Some [''hello'', ''help'']" by code_simp
  have d: "DeletePrefix ?t ''he'' = Some (\<lparr>root = Node None []
        [(CHR ''h'', Node None ''hel'' []),
         (CHR ''x'', Node (Some (LeafNode ''x'' (3::int))) ''x'' [])],
      tsize = 1\<rparr>, 2)" by code_simp
  from DeletePrefix_mid_edge [OF h m] obtain t' ks where
    "keysOf ?c = Some ks" "DeletePrefix ?t ''he'' = Some (t', int (length ks))" by blast
  with k have "DeletePrefix ?t ''he'' = Some (t', 2)" by simp
  with h m k d show ?thesis by simp
qed

subsection \<open>The path-compression invariant\<close>

text \<open>
  The invariant in the words of the specification: every node other than the root that
  carries no leaf has at least two children.
\<close>

fun compressed :: "'v node \<Rightarrow> bool" where
  "compressed (Node lf p es) =
     ((case lf of Some l \<Rightarrow> True | None \<Rightarrow> 2 \<le> length es) \<and>
      list_all (\<lambda>e. compressed (snd e)) es)"

definition pathCompressed :: "'v tree \<Rightarrow> bool" where
  "pathCompressed t = list_all (\<lambda>e. compressed (snd e)) (edges (root t))"

text \<open>
  Claim C2. The path-compression invariant (every non-root node without a leaf has at least
  two children) is claimed to hold after every \<open>Insert\<close>, \<open>Delete\<close> and \<open>DeletePrefix\<close>.
  The code breaks it in \<open>DeletePrefix\<close>: after \<open>Insert "a"\<close> the invariant holds, and
  \<open>DeletePrefix "a"\<close> then empties the node of \<open>"a"\<close> but leaves it linked to the root, a
  non-root node with no leaf and no children. \<open>Delete "a"\<close> on the same tree removes the
  edge.
\<close>

theorem DeletePrefix_leaves_empty_node:
  "run [OpInsert ''a'' (1::int), OpDeletePrefix ''a''] New =
     Some \<lparr>root = Node None [] [(CHR ''a'', Node None ''a'' [])], tsize = 0\<rparr>
   \<and> pathCompressed \<lparr>root = Node None [] [(CHR ''a'', Node (Some (LeafNode ''a'' (1::int))) ''a'' [])],
                       tsize = 1\<rparr>
   \<and> \<not> pathCompressed
         \<lparr>root = Node None [] [(CHR ''a'', (Node None ''a'' [] :: int node))], tsize = 0\<rparr>
   \<and> run [OpInsert ''a'' (1::int), OpDelete ''a''] New = Some \<lparr>root = Node None [] [], tsize = 0\<rparr>"
  by code_simp

subsection \<open>Minimum and Maximum\<close>

text \<open>
  Claim C3. \<open>Minimum\<close> and \<open>Maximum\<close> are claimed to return the smallest and the largest
  stored key, with \<open>found = False\<close> only on a tree that holds no key. The code breaks it on
  trees that \<open>DeletePrefix\<close> has left with an empty node: after \<open>Insert "a"\<close>, \<open>Insert "b"\<close>,
  \<open>DeletePrefix "a"\<close> the key \<open>"b"\<close> is stored, and \<open>Minimum\<close> descends into the emptied first
  edge and returns \<open>found = False\<close>; after \<open>DeletePrefix "b"\<close> instead, \<open>"a"\<close> is stored and
  \<open>Maximum\<close> descends into the emptied last edge and returns \<open>found = False\<close>.
\<close>

theorem Minimum_Maximum_miss_stored_key:
  "run [OpInsert ''a'' (1::int), OpInsert ''b'' 2, OpDeletePrefix ''a''] New =
     Some \<lparr>root = Node None []
             [(CHR ''a'', Node None ''a'' []),
              (CHR ''b'', Node (Some (LeafNode ''b'' 2)) ''b'' [])], tsize = 1\<rparr>
   \<and> Get \<lparr>root = Node None []
             [(CHR ''a'', Node None ''a'' []),
              (CHR ''b'', Node (Some (LeafNode ''b'' (2::int))) ''b'' [])], tsize = 1\<rparr> ''b''
       = (2, True)
   \<and> Minimum \<lparr>root = Node None []
             [(CHR ''a'', Node None ''a'' []),
              (CHR ''b'', Node (Some (LeafNode ''b'' (2::int))) ''b'' [])], tsize = 1\<rparr>
       = ([], 0, False)
   \<and> run [OpInsert ''a'' (1::int), OpInsert ''b'' 2, OpDeletePrefix ''b''] New =
     Some \<lparr>root = Node None []
             [(CHR ''a'', Node (Some (LeafNode ''a'' 1)) ''a'' []),
              (CHR ''b'', Node None ''b'' [])], tsize = 1\<rparr>
   \<and> Get \<lparr>root = Node None []
             [(CHR ''a'', Node (Some (LeafNode ''a'' (1::int))) ''a'' []),
              (CHR ''b'', Node None ''b'' [])], tsize = 1\<rparr> ''a''
       = (1, True)
   \<and> Maximum \<lparr>root = Node None []
             [(CHR ''a'', Node (Some (LeafNode ''a'' (1::int))) ''a'' []),
              (CHR ''b'', Node None ''b'' [])], tsize = 1\<rparr>
       = ([], 0, False)"
  by code_simp

subsection \<open>DeletePrefix\<close>

text \<open>
  What \<open>DeletePrefix\<close> does to the contents of every tree: it returns the number of stored
  keys that begin with \<open>p\<close>, lowers \<open>Len\<close> by that number, removes exactly these keys and
  leaves every other key with its value; with the empty prefix it returns \<open>Len\<close> and leaves
  no key.
\<close>

lemma DeletePrefix_contents:
  assumes "run ops New = Some t"
  shows "\<exists>t'. DeletePrefix t p = Some (t', int (card {k. snd (Get t k) \<and> HasPrefix k p})) \<and>
           Len t' = Len t - int (card {k. snd (Get t k) \<and> HasPrefix k p}) \<and>
           (\<forall>k. Get t' k = (if HasPrefix k p then (0, False) else Get t k))"
proof -
  from assms have "wf t" by (rule run_wf)
  then obtain t' where t':
    "DeletePrefix t p = Some (t', int (card (under (root t) p)))"
    "\<And>k. lookup (root t') k = (if HasPrefix k p then None else lookup (root t) k)"
    "tsize t' = tsize t - int (card (under (root t) p))"
    by (rule DeletePrefix_spec [of t p]) blast
  have u: "under (root t) p = {k. snd (Get t k) \<and> HasPrefix k p}"
    by (simp add: under_def Get_found)
  have "Get t' k = (if HasPrefix k p then (0, False) else Get t k)" for k
    by (simp add: Get_lookup t'(2))
  with t'(1,3) u show ?thesis by (simp add: Len_def)
qed

lemma DeletePrefix_all:
  assumes "run ops New = Some t"
  shows "\<exists>t'. DeletePrefix t [] = Some (t', Len t) \<and> Len t' = 0 \<and> (\<forall>k. \<not> snd (Get t' k))"
proof -
  from assms have wft: "wf t" by (rule run_wf)
  from DeletePrefix_contents [OF assms, of "[]"] obtain t' where t':
    "DeletePrefix t [] = Some (t', int (card {k. snd (Get t k)}))"
    "Len t' = Len t - int (card {k. snd (Get t k)})"
    "\<forall>k. Get t' k = (0, False)" by auto
  have "{k. snd (Get t k)} = stored (root t)" by (simp add: stored_def Get_found)
  with wf_size [OF wft] have "int (card {k. snd (Get t k)}) = Len t" by (simp add: Len_def)
  with t' show ?thesis by simp
qed

text \<open>
  Claim C5. \<open>DeletePrefix\<close> is claimed to remove exactly the keys that begin with the prefix,
  to return their number, and, when no stored key begins with the prefix, to return 0 and
  leave the tree completely unchanged. The last part fails on a tree in which earlier calls
  of \<open>DeletePrefix\<close> have left empty nodes: after \<open>Insert "xa"\<close>, \<open>Insert "xb"\<close>,
  \<open>Insert "y"\<close>, \<open>DeletePrefix "xa"\<close>, \<open>DeletePrefix "xb"\<close> the only stored key is \<open>"y"\<close>,
  and \<open>DeletePrefix "x"\<close> returns 0 but cuts the two empty children off the node of \<open>"x"\<close>.
\<close>

theorem DeletePrefix_no_match_mutates:
  "run [OpInsert ''xa'' (1::int), OpInsert ''xb'' 2, OpInsert ''y'' 3,
        OpDeletePrefix ''xa'', OpDeletePrefix ''xb''] New =
     Some \<lparr>root = Node None []
             [(CHR ''x'', Node None ''x''
                [(CHR ''a'', Node None ''a'' []), (CHR ''b'', Node None ''b'' [])]),
              (CHR ''y'', Node (Some (LeafNode ''y'' 3)) ''y'' [])], tsize = 1\<rparr>
   \<and> keysOf (Node None []
             [(CHR ''x'', Node None ''x''
                [(CHR ''a'', Node None ''a'' []), (CHR ''b'', Node None ''b'' [])]),
              (CHR ''y'', Node (Some (LeafNode ''y'' (3::int))) ''y'' [])]) = Some [''y'']
   \<and> DeletePrefix \<lparr>root = Node None []
             [(CHR ''x'', Node None ''x''
                [(CHR ''a'', Node None ''a'' []), (CHR ''b'', Node None ''b'' [])]),
              (CHR ''y'', Node (Some (LeafNode ''y'' (3::int))) ''y'' [])], tsize = 1\<rparr> ''x''
       = Some (\<lparr>root = Node None []
             [(CHR ''x'', Node None ''x'' []),
              (CHR ''y'', Node (Some (LeafNode ''y'' 3)) ''y'' [])], tsize = 1\<rparr>, 0)"
  by code_simp

section \<open>Trees that keep the invariant\<close>

text \<open>
  \<open>Insert\<close> and \<open>Delete\<close> keep the path-compression invariant, and on a tree that satisfies
  it \<open>Minimum\<close>, \<open>Maximum\<close> and \<open>DeletePrefix\<close> do what is claimed of them: the three
  failures above all start from the empty node that \<open>DeletePrefix\<close> leaves linked to its
  parent. \<open>solid\<close> is the condition on one node, \<open>kids\<close> says that every child is
  compressed.
\<close>

definition solid :: "'v node \<Rightarrow> bool" where
  "solid n = (case leaf n of Some l \<Rightarrow> True | None \<Rightarrow> 2 \<le> length (edges n))"

definition kids :: "'v node \<Rightarrow> bool" where
  "kids n = list_all (\<lambda>e. compressed (snd e)) (edges n)"

lemma compressed_iff: "compressed n \<longleftrightarrow> solid n \<and> kids n"
  by (cases n) (simp add: solid_def kids_def split: option.splits)

lemma kids_Node [simp]: "kids (Node lf p es) = list_all (\<lambda>e. compressed (snd e)) es"
  by (simp add: kids_def)

lemma solid_Node: "solid (Node lf p es) = (lf \<noteq> None \<or> 2 \<le> length es)"
  by (simp add: solid_def split: option.splits)

lemma compressed_prefix: "compressed (Node lf p es) = compressed (Node lf p' es)"
  by simp

lemma compressed_leaf [simp]: "compressed (Node (Some l) p [])"
  by simp

lemma kids_getEdge:
  assumes "sortedEdges (edges n)" "kids n" "getEdge n l = Some c"
  shows "compressed c"
proof -
  from assms(1,3) have "map_of (edges n) l = Some c" by (simp add: getEdge_map_of)
  then have "(l, c) \<in> set (edges n)" by (rule map_of_SomeD)
  with assms(2) show ?thesis by (auto simp: kids_def list_all_iff)
qed

lemma setEdgeNode_compressed:
  assumes so: "sortedEdges (edges n)" and ge: "getEdge n l = Some c"
    and k: "kids n" and c': "compressed c'"
  shows "kids (setEdgeNode n l c')" "solid (setEdgeNode n l c') = solid n"
proof -
  from so ge obtain xs ys where e: "edges n = xs @ (l, c) # ys"
    "setEdgeNode n l c' = Node (leaf n) (prefix n) (xs @ (l, c') # ys)"
    by (rule setEdgeNode_shape [where c' = c']) blast
  from k c' e show "kids (setEdgeNode n l c')" by (simp add: kids_def)
  from e show "solid (setEdgeNode n l c') = solid n"
    by (simp add: solid_def split: option.splits)
qed

lemma addEdge_compressed:
  assumes so: "sortedEdges (edges n)" and ge: "getEdge n l = None"
    and k: "kids n" and c': "compressed c'"
  shows "kids (addEdge n (l, c'))" "solid n \<Longrightarrow> solid (addEdge n (l, c'))"
proof -
  from so ge obtain xs ys where e: "edges n = xs @ ys"
    "addEdge n (l, c') = Node (leaf n) (prefix n) (xs @ (l, c') # ys)"
    by (rule addEdge_shape [where c' = c']) blast
  from k c' e show "kids (addEdge n (l, c'))" by (simp add: kids_def)
  from e show "solid n \<Longrightarrow> solid (addEdge n (l, c'))"
    by (auto simp: solid_def split: option.splits)
qed

lemma splitNode_compressed:
  assumes p2: "p2 \<noteq> []" and d: "s2 = [] \<or> hd s2 \<noteq> hd p2" and c: "compressed c"
  shows "compressed (splitNode c q p2 s2 lf)"
proof -
  let ?sp = "splitNode c q p2 s2 lf"
  have c2: "compressed (Node (leaf c) p2 (edges c))"
    using c by (cases c) simp
  have set: "set (edges ?sp) =
          (if s2 = [] then {(hd p2, Node (leaf c) p2 (edges c))}
           else {(hd p2, Node (leaf c) p2 (edges c)), (hd s2, Node (Some lf) s2 [])})"
    using p2 d by (rule splitNode_eq(5))
  have lf: "leaf ?sp = (if s2 = [] then Some lf else None)"
    using p2 d by (rule splitNode_eq(2))
  have "kids ?sp"
    unfolding kids_def list_all_iff set using c2 by simp
  moreover have "solid ?sp"
  proof (cases "s2 = []")
    case True
    with lf show ?thesis by (simp add: solid_def)
  next
    case False
    with d have ne: "hd s2 \<noteq> hd p2" by simp
    from set False have "card (set (edges ?sp)) = 2" using ne by simp
    with card_length [of "edges ?sp"] have "2 \<le> length (edges ?sp)" by simp
    then show ?thesis by (simp add: solid_def split: option.splits)
  qed
  ultimately show ?thesis by (simp add: compressed_iff)
qed

lemma Insert_loop_compressed:
  "wfn P n \<Longrightarrow> kids n \<Longrightarrow> Insert_loop n s path v sz = Some (n', r) \<Longrightarrow>
     kids n' \<and> (solid n \<longrightarrow> solid n')"
proof (induction n s arbitrary: P n' r rule: lookup.induct)
  case (1 n s)
  note wf = \<open>wfn P n\<close> and k = \<open>kids n\<close> and I = \<open>Insert_loop n s path v sz = Some (n', r)\<close>
  have so: "sortedEdges (edges n)" using wf by (rule wfn_sorted)
  show ?case
  proof (cases "s = []")
    case True
    with I have "edges n' = edges n" "leaf n' \<noteq> None"
      by (auto simp: Insert_loop_Nil split: option.splits)
    with k show ?thesis by (auto simp: kids_def solid_def split: option.splits)
  next
    case False
    show ?thesis
    proof (cases "getEdge n (hd s)")
      case None
      with False I have n': "n' = addEdge n (hd s, Node (Some (LeafNode path v)) s [])"
        by (simp add: Insert_loop_missing)
      from addEdge_compressed [OF so None k, of "Node (Some (LeafNode path v)) s []"]
      show ?thesis unfolding n' by simp
    next
      case (Some c)
      note c = wfn_getEdge [OF wf Some]
      from kids_getEdge [OF so k Some] have cc: "compressed c" .
      show ?thesis
      proof (cases "HasPrefix s (prefix c)")
        case True
        with False Some I obtain c' r' where
          c': "Insert_loop c (drop (length (prefix c)) s) path v sz = Some (c', r')"
          and n': "n' = setEdgeNode n (hd s) c'"
          by (auto simp: Insert_loop_descend split: option.splits)
        from cc have "kids c" "solid c" by (simp_all add: compressed_iff)
        from "1.IH" [OF False Some True c(3) \<open>kids c\<close> c'] \<open>solid c\<close>
        have "compressed c'" by (simp add: compressed_iff)
        from setEdgeNode_compressed [OF so Some k this] show ?thesis
          unfolding n' by simp
      next
        case np: False
        obtain q s2 p2 where sp: "s = q @ s2" "prefix c = q @ p2"
          "s2 = [] \<or> p2 = [] \<or> hd s2 \<noteq> hd p2"
          by (rule longestPrefix_split [of s "prefix c"])
        from np sp have p2: "p2 \<noteq> []" by auto
        have q: "q \<noteq> []"
        proof
          assume "q = []"
          with sp False c p2 show False by auto
        qed
        from sp p2 have d: "s2 = [] \<or> hd s2 \<noteq> hd p2" by simp
        let ?sp = "splitNode c q p2 s2 (LeafNode path v)"
        have hq: "hd q = hd s" using q sp by simp
        have "getEdge n (hd (q @ s2)) = Some c" using Some sp(1) by simp
        from Insert_loop_split [OF this sp(2) p2 q d, of path v sz]
        have "Insert_loop n s path v sz = Some (setEdgeNode n (hd s) ?sp, sz + 1, 0, False)"
          by (simp add: hq sp(1) [symmetric])
        with I have n': "n' = setEdgeNode n (hd s) ?sp" by simp
        from p2 d cc have "compressed ?sp" by (rule splitNode_compressed)
        from setEdgeNode_compressed [OF so Some k this] show ?thesis
          unfolding n' by simp
      qed
    qed
  qed
qed

lemma mergeChild_compressed:
  assumes "kids m" "length (edges m) = 1"
  obtains m' where "mergeChild m = Some m'" "compressed m'"
proof -
  obtain lf p es where m: "m = Node lf p es" by (cases m)
  with assms(2) obtain e where es: "es = [e]" by (cases es) auto
  from assms(1) m es have "compressed (snd e)" by simp
  then have "compressed (Node (leaf (snd e)) (p @ prefix (snd e)) (edges (snd e)))"
    by (cases "snd e") simp
  with m es show ?thesis by (intro that [of "Node (leaf (snd e)) (p @ prefix (snd e)) (edges (snd e))"]) simp_all
qed

lemma mergeParent_compressed:
  assumes "kids m" "mergeParent isRoot m = Some m'"
    "isRoot \<or> leaf m \<noteq> None \<or> 1 \<le> length (edges m)"
  shows "kids m' \<and> (isRoot \<or> solid m')"
proof (cases "\<not> isRoot \<and> length (edges m) = 1 \<and> \<not> isLeaf m")
  case True
  then have one: "length (edges m) = 1" by simp
  from assms(1) one obtain m1 where "mergeChild m = Some m1" "compressed m1"
    by (rule mergeChild_compressed)
  with assms(2) True show ?thesis by (simp add: mergeParent_def compressed_iff)
next
  case False
  with assms(2) have m': "m' = m" by (auto simp: mergeParent_def)
  from False assms(3) have "isRoot \<or> solid m"
    by (auto simp: solid_def isLeaf_def split: option.splits)
  with assms(1) m' show ?thesis by simp
qed

lemma delEdge_compressed:
  assumes so: "sortedEdges (edges n)" and ge: "getEdge n l = Some c" and k: "kids n"
  shows "kids (delEdge n l)" "leaf (delEdge n l) = leaf n"
    "Suc (length (edges (delEdge n l))) = length (edges n)"
proof -
  from so ge obtain xs ys where e: "edges n = xs @ (l, c) # ys"
    "delEdge n l = Node (leaf n) (prefix n) (xs @ ys)"
    by (rule delEdge_shape) blast
  from k e show "kids (delEdge n l)" by (simp add: kids_def)
  from e show "leaf (delEdge n l) = leaf n" by simp
  from e show "Suc (length (edges (delEdge n l))) = length (edges n)" by simp
qed

lemma Delete_block_compressed:
  assumes so: "sortedEdges (edges n)" and ge: "getEdge n l = Some c" and k: "kids n"
    and s: "isRoot \<or> solid n" and D: "Delete_block isRoot n l c = Some n'"
  shows "kids n' \<and> (isRoot \<or> solid n')"
proof -
  from kids_getEdge [OF so k ge] have cc: "compressed c" .
  then have kc: "kids c" by (simp add: compressed_iff)
  let ?cur = "Node None (prefix c) (edges c)"
  have kcur: "kids ?cur" using kc by (simp add: kids_def)
  show ?thesis
  proof (cases "length (edges c) = 0")
    case True
    with D have mp: "mergeParent isRoot (delEdge n l) = Some n'"
      by (simp add: Delete_block_def)
    note d = delEdge_compressed [OF so ge k]
    from s d(2,3) have "isRoot \<or> leaf (delEdge n l) \<noteq> None \<or> 1 \<le> length (edges (delEdge n l))"
      by (auto simp: solid_def split: option.splits)
    with d(1) mp show ?thesis by (rule mergeParent_compressed)
  next
    case False
    obtain cur' where cur': "(if length (edges c) = 1 then mergeChild ?cur else Some ?cur) = Some cur'"
      "compressed cur'"
    proof (cases "length (edges c) = 1")
      case True
      then have "length (edges ?cur) = 1" by simp
      with kcur obtain m' where "mergeChild ?cur = Some m'" "compressed m'"
        by (rule mergeChild_compressed)
      with True that show ?thesis by simp
    next
      case ne1: False
      with False have "2 \<le> length (edges c)" by arith
      with kcur have "compressed ?cur" by (simp add: compressed_iff solid_def)
      with ne1 that show ?thesis by simp
    qed
    from D False cur'(1) have mp: "mergeParent isRoot (setEdgeNode n l cur') = Some n'"
      by (simp add: Delete_block_def)
    note se = setEdgeNode_compressed [OF so ge k cur'(2)]
    have "isRoot \<or> leaf (setEdgeNode n l cur') \<noteq> None \<or> 1 \<le> length (edges (setEdgeNode n l cur'))"
      using s se(2) by (auto simp: solid_def split: option.splits)
    with se(1) mp show ?thesis by (rule mergeParent_compressed)
  qed
qed

lemma Delete_loop_compressed:
  "wfn P n \<Longrightarrow> kids n \<Longrightarrow> isRoot \<or> solid n \<Longrightarrow> s \<noteq> [] \<Longrightarrow>
   Delete_loop isRoot n s = Done (n', x) \<Longrightarrow> kids n' \<and> (isRoot \<or> solid n')"
proof (induction n s arbitrary: P isRoot n' x rule: lookup.induct)
  case (1 n s)
  note wf = \<open>wfn P n\<close> and k = \<open>kids n\<close> and sol = \<open>isRoot \<or> solid n\<close> and s = \<open>s \<noteq> []\<close>
    and D = \<open>Delete_loop isRoot n s = Done (n', x)\<close>
  have so: "sortedEdges (edges n)" using wf by (rule wfn_sorted)
  show ?case
  proof (cases "getEdge n (hd s)")
    case None
    with D show ?thesis by (simp add: Delete_loop_missing)
  next
    case (Some c)
    note c = wfn_getEdge [OF wf Some]
    from kids_getEdge [OF so k Some] have cc: "compressed c" .
    show ?thesis
    proof (cases "HasPrefix s (prefix c)")
      case False
      with Some D show ?thesis by (simp add: Delete_loop_mismatch)
    next
      case True
      then obtain r where r: "s = prefix c @ r" by (auto simp: HasPrefix_iff)
      show ?thesis
      proof (cases "r = []")
        case True
        with r have "s = prefix c" by simp
        from Delete_loop_here [OF Some this, of isRoot] D
        have "Delete_block isRoot n (hd s) c = Some n'"
          by (auto split: option.splits)
        with so Some k sol show ?thesis by (rule Delete_block_compressed)
      next
        case False
        from Delete_loop_descend [OF Some r False, of isRoot] D
        obtain c' where c': "Delete_loop False c r = Done (c', x)"
          and n': "n' = setEdgeNode n (hd s) c'"
          by (auto split: outcome.splits)
        from cc have kc: "kids c" and sc: "False \<or> solid c" by (simp_all add: compressed_iff)
        have d1: "drop (length (prefix c)) s \<noteq> []" using r False by simp
        have d2: "Delete_loop False c (drop (length (prefix c)) s) = Done (c', x)"
          using c' r by simp
        from "1.IH" [OF s Some True c(3) kc sc d1 d2]
        have "compressed c'" by (simp add: compressed_iff)
        from setEdgeNode_compressed [OF so Some k this] sol show ?thesis
          unfolding n' by simp
      qed
    qed
  qed
qed

lemma pathCompressed_kids: "pathCompressed t = kids (root t)"
  by (simp add: pathCompressed_def kids_def)

lemma Insert_compressed:
  assumes "wf t" "pathCompressed t" "Insert t k v = Some (t', r)"
  shows "pathCompressed t'"
proof -
  from assms(1) have w: "wfn [] (root t)" by (simp add: wf_def)
  from assms(3) obtain n' r' where "Insert_loop (root t) k k v (tsize t) = Some (n', r')"
    and t': "root t' = n'"
    by (auto simp: Insert_def split: option.splits)
  from Insert_loop_compressed [OF w _ this(1)] assms(2) t' show ?thesis
    by (simp add: pathCompressed_kids)
qed

lemma Delete_compressed:
  assumes "wf t" "pathCompressed t" "Delete t k = Some (t', r)"
  shows "pathCompressed t'"
proof (cases "k = []")
  case True
  with assms(3) have "edges (root t') = edges (root t)"
    by (auto simp: Delete_def split: option.splits)
  with assms(2) show ?thesis by (simp add: pathCompressed_def)
next
  case False
  from assms(1) have w: "wfn [] (root t)" by (simp add: wf_def)
  show ?thesis
  proof (cases "Delete_loop True (root t) k")
    case Panic
    with assms(3) False show ?thesis by (simp add: Delete_def)
  next
    case Break
    with assms(3) False have "t' = t" by (simp add: Delete_def)
    with assms(2) show ?thesis by simp
  next
    case (Done res)
    obtain n' x where res: "res = (n', x)" by (cases res)
    with Done assms(3) False have t': "root t' = n'" by (auto simp: Delete_def)
    from assms(2) have k: "kids (root t)" by (simp add: pathCompressed_kids)
    have "True \<or> solid (root t)" by simp
    from Delete_loop_compressed [OF w k this False Done [unfolded res]] t'
    show ?thesis by (simp add: pathCompressed_kids)
  qed
qed

fun insertOrDelete :: "'v op \<Rightarrow> bool" where
  "insertOrDelete (OpInsert k v) = True"
| "insertOrDelete (OpDelete k) = True"
| "insertOrDelete (OpDeletePrefix p) = False"

lemma run_compressed_gen:
  "wf t \<Longrightarrow> pathCompressed t \<Longrightarrow> list_all insertOrDelete xs \<Longrightarrow> run xs t = Some t' \<Longrightarrow>
     pathCompressed t'"
proof (induction xs arbitrary: t)
  case Nil
  then show ?case by simp
next
  case (Cons x xs)
  from Cons.prems(1) obtain t1 where t1: "apply_op t x = Some t1" "wf t1"
    by (rule apply_op_wf)
  have "pathCompressed t1"
  proof (cases x)
    case (OpInsert k v)
    with t1(1) obtain r where "Insert t k v = Some (t1, r)" by auto
    with Cons.prems(1,2) show ?thesis by (rule Insert_compressed)
  next
    case (OpDelete k)
    with t1(1) obtain r where "Delete t k = Some (t1, r)" by auto
    with Cons.prems(1,2) show ?thesis by (rule Delete_compressed)
  next
    case (OpDeletePrefix p)
    with Cons.prems(3) show ?thesis by simp
  qed
  with Cons.IH [OF t1(2)] Cons.prems(3,4) t1(1) show ?case by simp
qed

lemma pathCompressed_New: "pathCompressed New"
  by (simp add: pathCompressed_def New_def)

lemma run_compressed:
  "list_all insertOrDelete ops \<Longrightarrow> run ops New = Some t \<Longrightarrow> pathCompressed t"
  using run_compressed_gen [OF wf_New pathCompressed_New] by blast

text \<open>On a compressed tree every subtree below the root holds a leaf.\<close>

lemma compressed_leaves: "compressed n \<Longrightarrow> leaves n \<noteq> []"
proof (induction n rule: leaves.induct)
  case (1 lf p es)
  show ?case
  proof (cases lf)
    case (Some l)
    then show ?thesis by simp
  next
    case None
    with "1.prems" obtain e es' where es: "es = e # es'" by (cases es) auto
    with "1.prems" have "compressed (snd e)" by simp
    with "1.IH" [of e] es have "leaves (snd e) \<noteq> []" by simp
    with es show ?thesis by simp
  qed
qed

lemma Minimum_loop_leaves:
  "kids n \<Longrightarrow> Minimum_loop n = (case leaves n of [] \<Rightarrow> None | l # ls \<Rightarrow> Some l)"
proof (induction n rule: leaves.induct)
  case (1 lf p es)
  show ?case
  proof (cases lf)
    case (Some l)
    then show ?thesis by (subst Minimum_loop.simps) simp
  next
    case None
    show ?thesis
    proof (cases es)
      case Nil
      with None show ?thesis by (subst Minimum_loop.simps) simp
    next
      case (Cons e es')
      with "1.prems" have ce: "compressed (snd e)" by simp
      then have "kids (snd e)" by (simp add: compressed_iff)
      with "1.IH" [of e] Cons
      have IH: "Minimum_loop (snd e) = (case leaves (snd e) of [] \<Rightarrow> None | l # ls \<Rightarrow> Some l)"
        by simp
      from compressed_leaves [OF ce] obtain l ls where l: "leaves (snd e) = l # ls"
        by (cases "leaves (snd e)") auto
      have "Minimum_loop (Node lf p es) = Minimum_loop (snd e)"
        using None Cons by (subst Minimum_loop.simps) simp
      with IH l None Cons show ?thesis by simp
    qed
  qed
qed

lemma Maximum_loop_leaves:
  "kids n \<Longrightarrow> Maximum_loop n = (if leaves n = [] then None else Some (last (leaves n)))"
proof (induction n rule: leaves.induct)
  case (1 lf p es)
  show ?case
  proof (cases "es = []")
    case True
    then show ?thesis by (subst Maximum_loop.simps) (simp split: option.splits)
  next
    case False
    then obtain es' e where es: "es = es' @ [e]" by (metis rev_exhaust)
    with "1.prems" have ce: "compressed (snd e)" by simp
    then have "kids (snd e)" by (simp add: compressed_iff)
    with "1.IH" [of e] es
    have IH: "Maximum_loop (snd e) =
        (if leaves (snd e) = [] then None else Some (last (leaves (snd e))))"
      by simp
    from compressed_leaves [OF ce] have ne: "leaves (snd e) \<noteq> []" .
    have "Maximum_loop (Node lf p es) = Maximum_loop (snd e)"
      using es by (subst Maximum_loop.simps) (simp add: Let_def nth_append)
    with IH ne es show ?thesis by simp
  qed
qed

text \<open>
  On a tree that satisfies the invariant, \<open>Minimum\<close> and \<open>Maximum\<close> find the smallest and
  the largest stored key, and report \<open>False\<close> only when no key is stored.
\<close>

lemma Minimum_compressed:
  assumes "wf t" "pathCompressed t"
  shows "(case Minimum t of
            (k, v, found) \<Rightarrow>
              (found \<longleftrightarrow> (\<exists>k'. snd (Get t k'))) \<and>
              (found \<longrightarrow> Get t k = (v, True) \<and> (\<forall>k'. snd (Get t k') \<longrightarrow> k \<le> k')))"
proof -
  from assms(1) have w: "wfn [] (root t)" by (simp add: wf_def)
  from assms(2) have k: "kids (root t)" by (simp add: pathCompressed_kids)
  have keys: "key ` set (leaves (root t)) = {k. snd (Get t k)}"
    using stored_keys [OF w] by (simp add: stored_def Get_found)
  note M = Minimum_loop_leaves [OF k]
  show ?thesis
  proof (cases "leaves (root t)")
    case Nil
    with keys have none: "\<And>k'. \<not> snd (Get t k')" by auto
    from M Nil have "Minimum t = ([], 0, False)" by (simp add: Minimum_def)
    with none show ?thesis by simp
  next
    case (Cons l ls)
    then have "l \<in> set (leaves (root t))" by simp
    from leaves_lookup [OF w this, of "key l"] have g: "Get t (key l) = (val l, True)"
      by (simp add: Get_lookup)
    from leaves_sorted [OF w] Cons have lt: "\<forall>x \<in> set ls. key l < key x" by simp
    have le: "key l \<le> k'" if "snd (Get t k')" for k'
    proof -
      from that keys have "k' \<in> key ` set (l # ls)" unfolding Cons [symmetric] by blast
      then obtain x where "x = l \<or> x \<in> set ls" "k' = key x" by auto
      with lt show ?thesis by (auto simp: less_imp_le)
    qed
    from g have ex: "\<exists>k'. snd (Get t k')" by (intro exI [of _ "key l"]) simp
    from M Cons have "Minimum t = (key l, val l, True)" by (simp add: Minimum_def)
    then show ?thesis using g ex le by simp
  qed
qed

lemma Maximum_compressed:
  assumes "wf t" "pathCompressed t"
  shows "(case Maximum t of
            (k, v, found) \<Rightarrow>
              (found \<longleftrightarrow> (\<exists>k'. snd (Get t k'))) \<and>
              (found \<longrightarrow> Get t k = (v, True) \<and> (\<forall>k'. snd (Get t k') \<longrightarrow> k' \<le> k)))"
proof -
  from assms(1) have w: "wfn [] (root t)" by (simp add: wf_def)
  from assms(2) have k: "kids (root t)" by (simp add: pathCompressed_kids)
  have keys: "key ` set (leaves (root t)) = {k. snd (Get t k)}"
    using stored_keys [OF w] by (simp add: stored_def Get_found)
  note M = Maximum_loop_leaves [OF k]
  show ?thesis
  proof (cases "leaves (root t) = []")
    case True
    with keys have none: "\<And>k'. \<not> snd (Get t k')" by auto
    from M True have "Maximum t = ([], 0, False)" by (simp add: Maximum_def)
    with none show ?thesis by simp
  next
    case False
    then obtain ls l where ls: "leaves (root t) = ls @ [l]"
      by (cases "leaves (root t)" rule: rev_cases) auto
    then have "l \<in> set (leaves (root t))" by simp
    from leaves_lookup [OF w this, of "key l"] have g: "Get t (key l) = (val l, True)"
      by (simp add: Get_lookup)
    from leaves_sorted [OF w] ls have lt: "\<forall>x \<in> set ls. key x < key l"
      by (simp add: sorted_wrt_append)
    have le: "k' \<le> key l" if "snd (Get t k')" for k'
    proof -
      from that keys have "k' \<in> key ` set (ls @ [l])" unfolding ls [symmetric] by blast
      then obtain x where "x = l \<or> x \<in> set ls" "k' = key x" by auto
      with lt show ?thesis by (auto simp: less_imp_le)
    qed
    from g have ex: "\<exists>k'. snd (Get t k')" by (intro exI [of _ "key l"]) simp
    from M ls have "Maximum t = (key l, val l, True)" by (simp add: Maximum_def)
    then show ?thesis using g ex le by simp
  qed
qed

text \<open>
  On a tree that satisfies the invariant, \<open>DeletePrefix\<close> with a prefix that no stored key
  begins with returns 0 and the very same tree.
\<close>

lemma deletePrefix_loop_compressed:
  "wfn P n \<Longrightarrow> kids n \<Longrightarrow> pfx \<noteq> [] \<Longrightarrow> under n pfx = {} \<Longrightarrow>
     deletePrefix_loop isRoot n pfx = Break"
proof (induction n pfx arbitrary: P isRoot rule: lookup.induct)
  case (1 n pfx)
  note wf = \<open>wfn P n\<close> and k = \<open>kids n\<close> and ne = \<open>pfx \<noteq> []\<close> and u = \<open>under n pfx = {}\<close>
  have so: "sortedEdges (edges n)" using wf by (rule wfn_sorted)
  show ?case
  proof (cases "getEdge n (hd pfx)")
    case None
    then show ?thesis by (rule deletePrefix_loop_missing)
  next
    case (Some c)
    note c = wfn_getEdge [OF wf Some]
    from kids_getEdge [OF so k Some] have cc: "compressed c" .
    show ?thesis
    proof (cases "HasPrefix (prefix c) pfx")
      case True
      from under_here [OF ne Some True] u have "stored c = {}" by simp
      with leaves_stored [OF c(3)] have "leaves c = []" by simp
      with compressed_leaves [OF cc] show ?thesis by simp
    next
      case np: False
      show ?thesis
      proof (cases "HasPrefix pfx (prefix c)")
        case False
        with Some np show ?thesis by (intro deletePrefix_loop_mismatch)
      next
        case True
        then obtain r where r: "pfx = prefix c @ r" by (auto simp: HasPrefix_iff)
        with np have rne: "r \<noteq> []" by auto
        from under_descend [OF r ne Some] u have ur: "under c r = {}" by simp
        from cc have kc: "kids c" by (simp add: compressed_iff)
        have d1: "drop (length (prefix c)) pfx \<noteq> []" using r rne by simp
        have d2: "under c (drop (length (prefix c)) pfx) = {}" using ur r by simp
        from "1.IH" [OF ne Some True c(3) kc d1 d2, of False]
        have "deletePrefix_loop False c r = Break" using r by simp
        with deletePrefix_loop_descend [OF Some r rne, of isRoot] show ?thesis by simp
      qed
    qed
  qed
qed

lemma DeletePrefix_no_match_compressed:
  assumes "wf t" "pathCompressed t" "\<forall>k. snd (Get t k) \<longrightarrow> \<not> HasPrefix k p"
  shows "DeletePrefix t p = Some (t, 0)"
proof -
  from assms(1) have w: "wfn [] (root t)" and pr: "prefix (root t) = []"
    and sz: "tsize t = int (length (leaves (root t)))" by (simp_all add: wf_def)
  from assms(2) have k: "kids (root t)" by (simp add: pathCompressed_kids)
  from assms(3) have u: "under (root t) p = {}" by (auto simp: under_def Get_found)
  show ?thesis
  proof (cases "p = []")
    case True
    with u have "stored (root t) = {}" by (simp add: under_Nil)
    with stored_keys [OF w] have l: "leaves (root t) = []" by simp
    obtain lf q es where n: "root t = Node lf q es" by (cases "root t")
    from l n have lf: "lf = None" by (auto split: option.splits)
    have "es = []"
    proof (cases es)
      case Nil
      then show ?thesis .
    next
      case (Cons e es')
      with k n have "compressed (snd e)" by simp
      from compressed_leaves [OF this] l n Cons show ?thesis by simp
    qed
    with n lf pr have "root t = Node None [] []" by simp
    with True l sz show ?thesis
      by (simp add: DeletePrefix_def subTreeSize_leaves)
  next
    case False
    from deletePrefix_loop_compressed [OF w k False u, of True] False
    show ?thesis by (simp add: DeletePrefix_def)
  qed
qed

section \<open>Deleting during a walk\<close>

text \<open>
  The functional model above rebuilds the path to a node that changes. A visitor that calls
  \<open>Delete\<close> while \<open>recursiveWalk\<close> is running changes nodes to which the walk still holds
  pointers, so this section models the nodes as cells of a store: an address is a natural
  number, an edge holds the address of its child, and \<open>Delete\<close> updates cells in place.
  The loops take fuel: \<open>Fuel\<close> says that the fuel ran out, \<open>Fault\<close> is a run-time panic and
  \<open>Ret\<close> a normal return. Edge lists are values here; Go lets the slice of a merged node
  share the array of its child, which makes no difference when the shared slice is empty, as
  it is in the run evaluated below.
\<close>

record 'v hnode =
  hleaf :: "'v leafNode option"
  hprefix :: string
  hedges :: "(char \<times> nat) list"

record 'v htree =
  cells :: "nat \<Rightarrow> 'v hnode"
  hroot :: nat
  hsize :: int

datatype 'a res = Fuel | Fault | Ret 'a

text \<open>\<open>getEdge\<close> and \<open>delEdge\<close> on a cell, with the same binary search as above.\<close>

definition hedgeIndex :: "'v hnode \<Rightarrow> char \<Rightarrow> nat" where
  "hedgeIndex n l = sort_Search (length (hedges n)) (\<lambda>i. fst (hedges n ! i) \<ge> l)"

definition hgetEdge :: "'v hnode \<Rightarrow> char \<Rightarrow> nat option" where
  "hgetEdge n l =
     (let idx = hedgeIndex n l in
      if idx < length (hedges n) \<and> fst (hedges n ! idx) = l
      then Some (snd (hedges n ! idx)) else None)"

definition hdelEdge :: "'v hnode \<Rightarrow> char \<Rightarrow> 'v hnode" where
  "hdelEdge n l =
     (let idx = hedgeIndex n l in
      if idx < length (hedges n) \<and> fst (hedges n ! idx) = l
      then n\<lparr>hedges := take idx (hedges n) @ drop (idx + 1) (hedges n)\<rparr> else n)"

definition store :: "'v htree \<Rightarrow> nat \<Rightarrow> 'v hnode \<Rightarrow> 'v htree" where
  "store h a n = h\<lparr>cells := (cells h)(a := n)\<rparr>"

text \<open>\<open>mergeChild\<close>: the cell at \<open>a\<close> takes the leaf and the edges of its first child.\<close>

definition hmergeChild :: "'v htree \<Rightarrow> nat \<Rightarrow> 'v htree res" where
  "hmergeChild h a =
     (let n = cells h a in
      if hedges n = [] then Fault
      else
        (let child = cells h (snd (hedges n ! 0)) in
         Ret (store h a \<lparr>hleaf = hleaf child, hprefix = hprefix n @ hprefix child,
                         hedges = hedges child\<rparr>)))"

fun hGet_loop :: "nat \<Rightarrow> 'v htree \<Rightarrow> nat \<Rightarrow> string \<Rightarrow> 'v option res" where
  "hGet_loop 0 h current search = Fuel"
| "hGet_loop (Suc fuel) h current search =
     (if search = [] then
        (case hleaf (cells h current) of
           Some l \<Rightarrow> Ret (Some (val l))
         | None \<Rightarrow> Ret None)
      else
        (case hgetEdge (cells h current) (hd search) of
           None \<Rightarrow> Ret None
         | Some c \<Rightarrow>
             if HasPrefix search (hprefix (cells h c))
             then hGet_loop fuel h c (drop (length (hprefix (cells h c))) search)
             else Ret None))"

definition hGet :: "nat \<Rightarrow> ('v::zero) htree \<Rightarrow> string \<Rightarrow> ('v \<times> bool) res" where
  "hGet fuel h s =
     (case hGet_loop fuel h (hroot h) s of
        Fuel \<Rightarrow> Fuel
      | Fault \<Rightarrow> Fault
      | Ret None \<Rightarrow> Ret (0, False)
      | Ret (Some v) \<Rightarrow> Ret (v, True))"

text \<open>
  \<open>Delete\<close>: the descent returns the node to delete together with its parent and the label
  of the edge between them, or \<open>None\<close> where the source breaks out of the loop.
\<close>

fun hDelete_loop ::
  "nat \<Rightarrow> 'v htree \<Rightarrow> nat option \<Rightarrow> char \<Rightarrow> nat \<Rightarrow> string \<Rightarrow>
     (nat option \<times> char \<times> nat) option res"
where
  "hDelete_loop 0 h parent label current search = Fuel"
| "hDelete_loop (Suc fuel) h parent label current search =
     (if search = [] then
        (if hleaf (cells h current) = None then Ret None
         else Ret (Some (parent, label, current)))
      else
        (case hgetEdge (cells h current) (hd search) of
           None \<Rightarrow> Ret None
         | Some c \<Rightarrow>
             if HasPrefix search (hprefix (cells h c))
             then hDelete_loop fuel h (Some current) (hd search) c
                    (drop (length (hprefix (cells h c))) search)
             else Ret None))"

definition hDelete_block ::
  "'v htree \<Rightarrow> nat option \<Rightarrow> char \<Rightarrow> nat \<Rightarrow> ('v htree \<times> 'v \<times> bool) res"
where
  "hDelete_block h parent label current =
     (case hleaf (cells h current) of
        None \<Rightarrow> Fault
      | Some lf \<Rightarrow>
          (let h1 = (store h current ((cells h current)\<lparr>hleaf := None\<rparr>))\<lparr>hsize := hsize h - 1\<rparr>;
               h2 = (case parent of
                       None \<Rightarrow> h1
                     | Some p \<Rightarrow>
                         if length (hedges (cells h1 current)) = 0
                         then store h1 p (hdelEdge (cells h1 p) label)
                         else h1)
           in
           (case (if current \<noteq> hroot h2 \<and> length (hedges (cells h2 current)) = 1
                  then hmergeChild h2 current else Ret h2) of
              Fuel \<Rightarrow> Fuel
            | Fault \<Rightarrow> Fault
            | Ret h3 \<Rightarrow>
                (case (case parent of
                         None \<Rightarrow> Ret h3
                       | Some p \<Rightarrow>
                           if p \<noteq> hroot h3 \<and> length (hedges (cells h3 p)) = 1 \<and>
                              hleaf (cells h3 p) = None
                           then hmergeChild h3 p else Ret h3) of
                   Fuel \<Rightarrow> Fuel
                 | Fault \<Rightarrow> Fault
                 | Ret h4 \<Rightarrow> Ret (h4, val lf, True)))))"

definition hDelete :: "nat \<Rightarrow> ('v::zero) htree \<Rightarrow> string \<Rightarrow> ('v htree \<times> 'v \<times> bool) res" where
  "hDelete fuel h s =
     (case hDelete_loop fuel h None (CHR 0x00) (hroot h) s of
        Fuel \<Rightarrow> Fuel
      | Fault \<Rightarrow> Fault
      | Ret None \<Rightarrow> Ret (h, 0, False)
      | Ret (Some (parent, label, current)) \<Rightarrow> hDelete_block h parent label current)"

text \<open>
  \<open>recursiveWalk\<close>, with a visitor that may change the store. As in the source, the number
  of edges is read after the visitor has returned, and the loop reads the cell of \<open>current\<close>
  afresh after every recursive call.
\<close>

type_synonym ('v, 's) hWalkFn = "string \<Rightarrow> 'v \<Rightarrow> 'v htree \<times> 's \<Rightarrow> (bool \<times> 'v htree \<times> 's) res"

fun hrecursiveWalk ::
  "nat \<Rightarrow> ('v, 's) hWalkFn \<Rightarrow> nat \<Rightarrow> 'v htree \<times> 's \<Rightarrow> (bool \<times> 'v htree \<times> 's) res"
and hrecursiveWalk_loop ::
  "nat \<Rightarrow> ('v, 's) hWalkFn \<Rightarrow> nat \<Rightarrow> nat \<Rightarrow> nat \<Rightarrow> 'v htree \<times> 's \<Rightarrow>
     (bool \<times> 'v htree \<times> 's) res"
where
  "hrecursiveWalk 0 fn current hs = Fuel"
| "hrecursiveWalk (Suc fuel) fn current hs =
     (case hleaf (cells (fst hs) current) of
        None \<Rightarrow>
          hrecursiveWalk_loop fuel fn current 0 (length (hedges (cells (fst hs) current))) hs
      | Some l \<Rightarrow>
          (case fn (key l) (val l) hs of
             Fuel \<Rightarrow> Fuel
           | Fault \<Rightarrow> Fault
           | Ret (stop, hs1) \<Rightarrow>
               if stop then Ret (True, hs1)
               else hrecursiveWalk_loop fuel fn current 0
                      (length (hedges (cells (fst hs1) current))) hs1))"
| "hrecursiveWalk_loop 0 fn current i numEdges hs = Fuel"
| "hrecursiveWalk_loop (Suc fuel) fn current i numEdges hs =
     (if i < numEdges then
        (if i < length (hedges (cells (fst hs) current)) then
           (case hrecursiveWalk fuel fn (snd (hedges (cells (fst hs) current) ! i)) hs of
              Fuel \<Rightarrow> Fuel
            | Fault \<Rightarrow> Fault
            | Ret (stop, hs1) \<Rightarrow>
                if stop then Ret (True, hs1)
                else if length (hedges (cells (fst hs1) current)) = 0
                then hrecursiveWalk fuel fn current hs1
                else hrecursiveWalk_loop fuel fn current
                       (if length (hedges (cells (fst hs1) current)) \<ge> numEdges then i + 1 else i)
                       (length (hedges (cells (fst hs1) current))) hs1)
         else Fault)
      else Ret (False, hs))"

definition hWalk ::
  "nat \<Rightarrow> 'v htree \<Rightarrow> ('v, 's) hWalkFn \<Rightarrow> 's \<Rightarrow> (bool \<times> 'v htree \<times> 's) res" where
  "hWalk fuel h fn st = hrecursiveWalk fuel fn (hroot h) (h, st)"

text \<open>The visitor that deletes the key it is visiting, and records the keys it has seen.\<close>

definition deleteVisited :: "nat \<Rightarrow> ('v::zero, string list) hWalkFn" where
  "deleteVisited fuel k v hs =
     (case hDelete fuel (fst hs) k of
        Fuel \<Rightarrow> Fuel
      | Fault \<Rightarrow> Fault
      | Ret (h1, existing, deleted) \<Rightarrow> Ret (False, h1, snd hs @ [k]))"

text \<open>The tree that a store holds, to compare a store with a tree of the functional model.\<close>

fun readNode :: "nat \<Rightarrow> 'v htree \<Rightarrow> nat \<Rightarrow> 'v node option" where
  "readNode 0 h a = None"
| "readNode (Suc fuel) h a =
     (let cs = map (\<lambda>e. (fst e, readNode fuel h (snd e))) (hedges (cells h a)) in
      if list_all (\<lambda>c. snd c \<noteq> None) cs
      then Some (Node (hleaf (cells h a)) (hprefix (cells h a)) (map (\<lambda>c. (fst c, the (snd c))) cs))
      else None)"

definition readTree :: "nat \<Rightarrow> 'v htree \<Rightarrow> 'v tree option" where
  "readTree fuel h = map_option (\<lambda>n. \<lparr>root = n, tsize = hsize h\<rparr>) (readNode fuel h (hroot h))"

text \<open>The store after \<open>Insert "a" 1\<close> and \<open>Insert "ab" 2\<close> on the empty tree.\<close>

definition cell0 :: "'v hnode" where
  "cell0 = \<lparr>hleaf = None, hprefix = [], hedges = []\<rparr>"

definition heap_a_ab :: "int htree" where
  "heap_a_ab =
     \<lparr>cells = (\<lambda>a. cell0)
        (0 := \<lparr>hleaf = None, hprefix = [], hedges = [(CHR ''a'', 1)]\<rparr>,
         1 := \<lparr>hleaf = Some (LeafNode ''a'' 1), hprefix = ''a'', hedges = [(CHR ''b'', 2)]\<rparr>,
         2 := \<lparr>hleaf = Some (LeafNode ''ab'' 2), hprefix = ''b'', hedges = []\<rparr>),
      hroot = 0, hsize = 2\<rparr>"

text \<open>
  Claim C4. A walk whose visitor deletes the key it is visiting is claimed to end, on every
  tree, with an empty tree after exactly one visit for every key. The code breaks it when a
  stored key is a prefix of another: on the tree holding \<open>"a"\<close> and \<open>"ab"\<close> the visitor is
  called on \<open>"a"\<close>, \<open>Delete\<close> clears that leaf and merges the node with its only child, so
  the node on which the walk is standing now carries the leaf of \<open>"ab"\<close> and no edges; the
  walk has passed its leaf check, finds no edges and returns. The visitor has been called
  once, on \<open>"a"\<close>; \<open>Len\<close> is 1 and \<open>"ab"\<close> is still stored.
\<close>

theorem Walk_deleting_skips_key:
  "readTree 3 heap_a_ab = run [OpInsert ''a'' 1, OpInsert ''ab'' 2] New
   \<and> (case hWalk 20 heap_a_ab (deleteVisited 20) [] of
        Ret (stop, h, ks) \<Rightarrow> Some (stop, ks, hsize h, hGet 20 h ''ab'', readTree 3 h)
      | Fault \<Rightarrow> None
      | Fuel \<Rightarrow> None)
     = Some (False, [''a''], 1, Ret (2, True),
             Some \<lparr>root = Node None [] [(CHR ''a'', Node (Some (LeafNode ''ab'' 2)) ''ab'' [])],
                   tsize = 1\<rparr>)"
  by code_simp

end
